theory Spec2Isabelle
  imports Complex_Main "HOL-Library.AList"
begin

section \<open>Data model\<close>

text \<open>
  The simulator of \<^verbatim>\<open>bgl_log_simulator.py\<close> works on strings for severities, components,
  node statuses and anomaly kinds; each of these closed vocabularies is a datatype here.
  A log line \<^verbatim>\<open>f"{timestamp} {severity} {node_id:04d} {component}: {message}"\<close> is kept
  as the record of its five fields, in the order in which \<^verbatim>\<open>_format_log_entry\<close> prints them.
\<close>

datatype severity = INFO | WARNING | ERROR | FATAL

datatype component =
  KERNEL | MEMORY | NETWORK | IO | PROCESSOR | FILESYSTEM | SCHEDULER | POWER | TEMPERATURE
  | APPLICATION

datatype status =
  OPERATIONAL | NETWORK_DEGRADED | POWERED_OFF | FILESYSTEM_ERROR | MEMORY_ERROR | OVERHEATING

datatype anomaly_kind =
  network_partition | rack_power_failure | filesystem_corruption | memory_errors | overheating

datatype py_error = ValueError | IndexError | KeyError | ZeroDivisionError

record log_entry =
  log_timestamp :: int
  log_severity :: severity
  log_node_id :: int
  log_component :: component
  log_message :: string

text \<open>
  The state is the object's attributes together with the state of the \<^verbatim>\<open>random\<close> module.
  Python integers are \<open>int\<close>; the two float parameters are rationals (every finite float is
  one). \<open>node_status\<close> is the dictionary from node id to status, \<open>active_anomalies\<close> the
  \<^verbatim>\<open>defaultdict(list)\<close> as an association list in insertion order (the order in which
  \<^verbatim>\<open>list(d.keys())\<close> enumerates it). \<open>current_time\<close> counts microseconds, the resolution
  of \<^verbatim>\<open>datetime\<close>; the upper end of the \<^verbatim>\<open>datetime\<close> range (year 9999) is not modelled.
  The random generator is an arbitrary infinite sequence of raw draws \<open>rng_draws\<close> and the
  number \<open>rng_pos\<close> of draws consumed so far: every function of \<^verbatim>\<open>random\<close> takes its
  result from the next draw, so that a statement for all \<open>rng_draws\<close> is a statement for
  every behaviour of the generator.
\<close>

record simulator =
  num_nodes :: int
  num_components :: int
  error_rate :: rat
  anomaly_probability :: rat
  node_status :: "int \<rightharpoonup> status"
  current_time :: int
  active_anomalies :: "(anomaly_kind \<times> int list) list"
  rng_draws :: "nat \<Rightarrow> nat"
  rng_pos :: nat

section \<open>Computations with state and exceptions\<close>

text \<open>
  A method is a function from the state to either the exception it raises (\<open>Inl\<close>) or its
  result and the state it leaves (\<open>Inr\<close>).
\<close>

type_synonym 'a sim = "simulator \<Rightarrow> py_error + 'a \<times> simulator"

definition returnM :: "'a \<Rightarrow> 'a sim" where
  "returnM x = (\<lambda>s. Inr (x, s))"

definition raiseM :: "py_error \<Rightarrow> 'a sim" where
  "raiseM e = (\<lambda>s. Inl e)"

definition bindM :: "'a sim \<Rightarrow> ('a \<Rightarrow> 'b sim) \<Rightarrow> 'b sim" where
  "bindM m f = (\<lambda>s. case m s of Inl e \<Rightarrow> Inl e | Inr (x, s') \<Rightarrow> f x s')"

definition getsM :: "(simulator \<Rightarrow> 'a) \<Rightarrow> 'a sim" where
  "getsM f = (\<lambda>s. Inr (f s, s))"

definition modifyM :: "(simulator \<Rightarrow> simulator) \<Rightarrow> unit sim" where
  "modifyM f = (\<lambda>s. Inr ((), f s))"

text \<open>
  A \<^verbatim>\<open>for x in xs:\<close> loop whose body updates the object and a local accumulator (the list
  \<^verbatim>\<open>messages\<close> or \<^verbatim>\<open>logs\<close>).
\<close>

fun for_loop :: "'a list \<Rightarrow> ('a \<Rightarrow> 'b \<Rightarrow> 'b sim) \<Rightarrow> 'b \<Rightarrow> 'b sim" where
  "for_loop [] body acc = returnM acc"
| "for_loop (x # xs) body acc = bindM (body x acc) (for_loop xs body)"

text \<open>\<^verbatim>\<open>range(a, b)\<close> as a list.\<close>

definition py_range :: "int \<Rightarrow> int \<Rightarrow> int list" where
  "py_range a b = [a..b - 1]"

section \<open>The random module\<close>

definition next_draw :: "nat sim" where
  "next_draw = (\<lambda>s. Inr (rng_draws s (rng_pos s), s\<lparr>rng_pos := Suc (rng_pos s)\<rparr>))"

text \<open>\<^verbatim>\<open>random.random()\<close>: a multiple of \<open>2\<^sup>-\<^sup>5\<^sup>3\<close> in \<open>[0, 1)\<close>.\<close>

definition random_random :: "rat sim" where
  "random_random = bindM next_draw (\<lambda>d. returnM (of_nat (d mod 2 ^ 53) / 2 ^ 53))"

text \<open>\<^verbatim>\<open>random.randint(a, b)\<close>: an integer of \<open>[a, b]\<close>, both ends included; \<^verbatim>\<open>ValueError\<close>
  on an empty range.\<close>

definition randint :: "int \<Rightarrow> int \<Rightarrow> int sim" where
  "randint a b =
     (if b < a then raiseM ValueError
      else bindM next_draw (\<lambda>d. returnM (a + int (d mod nat (b - a + 1)))))"

text \<open>\<^verbatim>\<open>random.choice(seq)\<close>: \<^verbatim>\<open>IndexError\<close> on an empty sequence.\<close>

definition random_choice :: "'a list \<Rightarrow> 'a sim" where
  "random_choice xs =
     (case xs of [] \<Rightarrow> raiseM IndexError
      | _ # _ \<Rightarrow> bindM next_draw (\<lambda>d. returnM (xs ! (d mod length xs))))"

text \<open>\<^verbatim>\<open>random.sample(population, k)\<close>: \<open>k\<close> picks without replacement, in the order picked.\<close>

fun sample_from :: "'a list \<Rightarrow> nat \<Rightarrow> 'a list sim" where
  "sample_from pool 0 = returnM []"
| "sample_from pool (Suc k) =
     bindM next_draw (\<lambda>d.
       let j = d mod length pool in
       bindM (sample_from (take j pool @ drop (Suc j) pool) k) (\<lambda>rest.
       returnM (pool ! j # rest)))"

definition random_sample :: "'a list \<Rightarrow> int \<Rightarrow> 'a list sim" where
  "random_sample population k =
     (if k < 0 \<or> int (length population) < k then raiseM ValueError
      else sample_from population (nat k))"

text \<open>\<^verbatim>\<open>random.uniform(a, b)\<close> is \<^verbatim>\<open>a + (b - a) * random()\<close>.\<close>

definition random_uniform :: "rat \<Rightarrow> rat \<Rightarrow> rat sim" where
  "random_uniform a b = bindM random_random (\<lambda>r. returnM (a + (b - a) * r))"

section \<open>Strings\<close>

text \<open>\<^verbatim>\<open>s.startswith(sub)\<close>, \<^verbatim>\<open>sub in s\<close> and \<^verbatim>\<open>s.replace(old, new)\<close> (all occurrences,
  left to right).\<close>

fun starts_with :: "string \<Rightarrow> string \<Rightarrow> bool" where
  "starts_with [] s = True"
| "starts_with (a # sub) [] = False"
| "starts_with (a # sub) (c # cs) = (if a = c then starts_with sub cs else False)"

fun contains :: "string \<Rightarrow> string \<Rightarrow> bool" where
  "contains sub [] = (sub = [])"
| "contains sub (c # cs) = (if starts_with sub (c # cs) then True else contains sub cs)"

function str_replace :: "string \<Rightarrow> string \<Rightarrow> string \<Rightarrow> string" where
  "str_replace old new [] = (if old = [] then new else [])"
| "str_replace old new (c # cs) =
     (if old = [] then new @ c # str_replace old new cs
      else if starts_with old (c # cs)
      then new @ str_replace old new (drop (length old - 1) cs)
      else c # str_replace old new cs)"
  by pat_completeness auto
termination
  by (relation "measure (\<lambda>(old, new, s). length s)") auto

definition digit_char :: "nat \<Rightarrow> char" where
  "digit_char d = ''0123456789abcdef'' ! d"

fun str_nat :: "nat \<Rightarrow> string" where
  "str_nat n = (if n < 10 then [digit_char n] else str_nat (n div 10) @ [digit_char (n mod 10)])"

fun hex_nat :: "nat \<Rightarrow> string" where
  "hex_nat n = (if n < 16 then [digit_char n] else hex_nat (n div 16) @ [digit_char (n mod 16)])"

declare str_nat.simps [simp del] hex_nat.simps [simp del]

text \<open>\<^verbatim>\<open>str(i)\<close>, \<^verbatim>\<open>f"{i:0wd}"\<close> and \<^verbatim>\<open>f"{i:0wx}"\<close>; the sign counts in the width.\<close>

definition zfill :: "nat \<Rightarrow> string \<Rightarrow> string" where
  "zfill w s = replicate (w - length s) CHR ''0'' @ s"

definition str_int :: "int \<Rightarrow> string" where
  "str_int i = (if i < 0 then CHR ''-'' # str_nat (nat (- i)) else str_nat (nat i))"

definition fmt_d :: "nat \<Rightarrow> int \<Rightarrow> string" where
  "fmt_d w i =
     (if i < 0 then CHR ''-'' # zfill (w - 1) (str_nat (nat (- i))) else zfill w (str_nat (nat i)))"

definition fmt_x :: "nat \<Rightarrow> int \<Rightarrow> string" where
  "fmt_x w i =
     (if i < 0 then CHR ''-'' # zfill (w - 1) (hex_nat (nat (- i))) else zfill w (hex_nat (nat i)))"

text \<open>Rounding to the nearest integer, ties to even, as \<^verbatim>\<open>timedelta\<close> and \<^verbatim>\<open>:.2f\<close> round.\<close>

definition round_half_even :: "rat \<Rightarrow> int" where
  "round_half_even x =
     (let f = \<lfloor>x\<rfloor>; d = x - of_int f
      in if d < 1 / 2 then f else if 1 / 2 < d then f + 1 else if even f then f else f + 1)"

text \<open>\<^verbatim>\<open>f"{x:.2f}"\<close> for a non-negative \<open>x\<close>.\<close>

definition fmt_2f :: "rat \<Rightarrow> string" where
  "fmt_2f x =
     (let h = round_half_even (x * 100)
      in str_int (h div 100) @ CHR ''.'' # zfill 2 (str_nat (nat (h mod 100))))"

section \<open>Message templates\<close>

text \<open>The degree sign of the temperature messages, the one character outside ASCII.\<close>

definition deg :: string where
  "deg = [CHR 0xB0]"

text \<open>The first dictionary of \<^verbatim>\<open>_init_message_templates\<close>.\<close>

fun templates :: "component \<Rightarrow> string list" where
  "templates KERNEL =
     [''Kernel panic on node {node_id}, process {pid} terminated'',
      ''Memory allocation failed at address 0x{address}'',
      ''System call {syscall} failed with error {errno}'',
      ''Kernel module {module} loaded successfully'',
      ''Process {pid} started with priority {priority}'']"
| "templates MEMORY =
     [''Memory usage at {percent}% on node {node_id}'',
      ''Memory leak detected in process {pid}'',
      ''Out of memory error, killed process {pid}'',
      ''Memory page fault at address 0x{address}'',
      ''Memory check completed: {status}'']"
| "templates NETWORK =
     [''Network interface {interface} down on node {node_id}'',
      ''Packet loss detected between nodes {node_id} and {target_node}'',
      ''Network throughput dropped to {bandwidth} MB/s'',
      ''TCP connection timeout on port {port}'',
      ''Link flapping detected on interface {interface}'']"
| "templates IO =
     [''I/O error on device {device} sector {sector}'',
      ''Disk {disk} full on node {node_id}'',
      ''Read timeout on device {device}'',
      ''Write error on file {filename}'',
      ''I/O wait time increased to {wait_time} ms'']"
| "templates PROCESSOR =
     [''CPU temperature at {temp}'' @ deg @ ''C on node {node_id}'',
      ''CPU utilization at {percent}% on node {node_id}'',
      ''Processor {core} throttling due to temperature'',
      ''Instruction cache error on core {core}'',
      ''Processor completed {cycles} cycles'']"
| "templates FILESYSTEM =
     [''Filesystem {fs} mounted on node {node_id}'',
      ''File corruption detected at {path}'',
      ''Inode table overflow on {fs}'',
      ''Filesystem {fs} remounted read-only due to errors'',
      ''Journal commit failure on {fs}'']"
| "templates SCHEDULER =
     [''Job {job_id} scheduled on nodes {node_range}'',
      ''Job {job_id} failed with exit code {exit_code}'',
      ''Scheduler queue full, rejecting new jobs'',
      ''Resource allocation failed for job {job_id}'',
      ''Job {job_id} completed in {duration} seconds'']"
| "templates POWER =
     [''Power supply {psu} failed on rack {rack_id}'',
      ''Entering power saving mode on node {node_id}'',
      ''Power consumption at {watts} watts'',
      ''Voltage fluctuation detected on rail {rail}'',
      ''UPS activated due to power instability'']"
| "templates TEMPERATURE =
     [''Temperature critical at {temp}'' @ deg @ ''C in rack {rack_id}'',
      ''Cooling fan {fan_id} failed in node {node_id}'',
      ''Temperature normalized at {temp}'' @ deg @ ''C'',
      ''Thermal throttling activated on node {node_id}'',
      ''HVAC system error code {error_code}'']"
| "templates APPLICATION =
     [''Application {app_name} crashed with signal {signal}'',
      ''MPI communication timeout in job {job_id}'',
      ''Checkpoint created for job {job_id} at {timestamp}'',
      ''Application {app_name} requested {mem_amount} GB memory'',
      ''Performance degradation detected in job {job_id}'']"

text \<open>The second dictionary, \<^verbatim>\<open>info_templates\<close>.\<close>

fun info_templates :: "component \<Rightarrow> string list" where
  "info_templates KERNEL =
     [''Kernel update completed successfully on node {node_id}'',
      ''Task scheduler optimized on node {node_id}'',
      ''System performance metrics collected on node {node_id}'']"
| "info_templates MEMORY =
     [''Memory test passed on node {node_id}'',
      ''Memory allocation pool optimized'',
      ''Swap usage at {percent}% on node {node_id}'']"
| "info_templates NETWORK =
     [''Network bandwidth test completed on node {node_id}: {bandwidth} MB/s'',
      ''Connectivity verified between node {node_id} and {target_node}'',
      ''Network configuration updated on node {node_id}'']"
| "info_templates IO =
     [''Disk performance test completed on node {node_id}'',
      ''I/O scheduler switched to {scheduler} on node {node_id}'',
      ''Device {device} read speed: {speed} MB/s'']"
| "info_templates PROCESSOR =
     [''CPU idle at {percent}% on node {node_id}'',
      ''Processor frequency scaled to {freq} GHz'',
      ''Core {core} running optimally on node {node_id}'']"
| "info_templates FILESYSTEM =
     [''Routine filesystem check passed on {fs}'',
      ''Quota usage at {percent}% on filesystem {fs}'',
      ''Filesystem {fs} defragmentation completed'']"
| "info_templates SCHEDULER =
     [''Queue status: {waiting} jobs waiting, {running} jobs running'',
      ''Scheduler load balanced across {count} nodes'',
      ''Resource availability updated: {cpu_free} CPUs, {mem_free} GB memory'']"
| "info_templates POWER =
     [''Power supply status normal on rack {rack_id}'',
      ''Energy efficiency optimized on node {node_id}'',
      ''Power consumption within normal parameters'']"
| "info_templates TEMPERATURE =
     [''Temperature stable at {temp}'' @ deg @ ''C in rack {rack_id}'',
      ''Cooling system operating normally on node {node_id}'',
      ''HVAC maintenance completed successfully'']"
| "info_templates APPLICATION =
     [''Application {app_name} started successfully on node {node_id}'',
      ''Job {job_id} resource usage within expected parameters'',
      ''Application metrics collected for {app_name}'']"

text \<open>\<^verbatim>\<open>self.message_templates\<close>: each component's list extended by its info templates.\<close>

definition message_templates :: "component \<Rightarrow> string list" where
  "message_templates c = templates c @ info_templates c"

text \<open>\<^verbatim>\<open>self.components\<close>.\<close>

definition components :: "component list" where
  "components =
     [KERNEL, MEMORY, NETWORK, IO, PROCESSOR, FILESYSTEM, SCHEDULER, POWER, TEMPERATURE,
      APPLICATION]"

section \<open>Timestamps and log entries\<close>

text \<open>
  \<^verbatim>\<open>_generate_timestamp\<close> advances the clock by \<^verbatim>\<open>random.random() * 5\<close> seconds, which
  \<^verbatim>\<open>timedelta\<close> rounds to microseconds, and returns the clock printed to the millisecond
  (\<^verbatim>\<open>strftime(...)[:-3]\<close> cuts the last three digits of the microseconds). The printed
  form \<^verbatim>\<open>YYYY-MM-DD-HH.MM.SS.mmm\<close> has fixed width and orders as the instants do; the model
  keeps the number of milliseconds it denotes. The rounding of the float product is not
  modelled: the interval is the exact product.
\<close>

definition generate_timestamp :: "int sim" where
  "generate_timestamp =
     bindM random_random (\<lambda>r.
       let interval = r * 5 in
       bindM (modifyM (\<lambda>s. s\<lparr>current_time :=
                current_time s + round_half_even (interval * 1000000)\<rparr>)) (\<lambda>_.
       getsM (\<lambda>s. current_time s div 1000)))"

definition format_log_entry ::
  "int \<Rightarrow> int \<Rightarrow> component \<Rightarrow> severity \<Rightarrow> string \<Rightarrow> log_entry" where
  "format_log_entry timestamp node_id component severity message =
     \<lparr>log_timestamp = timestamp, log_severity = severity, log_node_id = node_id,
      log_component = component, log_message = message\<rparr>"

text \<open>The text a timestamp leaves in a message: its millisecond count, in decimal.\<close>

definition timestamp_text :: "int \<Rightarrow> string" where
  "timestamp_text ms = str_int ms"

section \<open>Filling the placeholders\<close>

text \<open>\<^verbatim>\<open>str(random.randint(a, b))\<close>.\<close>

definition randint_str :: "int \<Rightarrow> int \<Rightarrow> string sim" where
  "randint_str a b = bindM (randint a b) (\<lambda>v. returnM (str_int v))"

text \<open>
  \<^verbatim>\<open>_fill_template_placeholders\<close> is a sequence of statements
  \<^verbatim>\<open>if "{p}" in message: message = message.replace("{p}", value)\<close>.
  The table lists the placeholders in the order of the source, each with the computation
  of its value, which runs only when the placeholder occurs in the message.
\<close>

definition placeholders :: "(string \<times> (int \<Rightarrow> string sim)) list" where
  "placeholders =
     [(''{node_id}'', \<lambda>node_id. returnM (fmt_d 4 node_id)),
      (''{pid}'', \<lambda>_. randint_str 1 32768),
      (''{address}'', \<lambda>_. bindM (randint 0 0xFFFFFFFF) (\<lambda>v. returnM (fmt_x 8 v))),
      (''{percent}'', \<lambda>_. randint_str 1 100),
      (''{status}'', \<lambda>_. random_choice [''SUCCESS'', ''FAILURE'', ''WARNING'', ''PARTIAL'']),
      (''{interface}'', \<lambda>_. bindM (randint_str 0 3) (\<lambda>v. returnM (''eth'' @ v))),
      (''{target_node}'', \<lambda>_.
         bindM (getsM num_nodes) (\<lambda>n.
         bindM (randint 0 (n - 1)) (\<lambda>v. returnM (fmt_d 4 v)))),
      (''{bandwidth}'', \<lambda>_. randint_str 10 1000),
      (''{port}'', \<lambda>_. randint_str 1024 65535),
      (''{device}'', \<lambda>_. bindM (random_choice ''abcdefgh'') (\<lambda>c. returnM (''/dev/sd'' @ [c]))),
      (''{disk}'', \<lambda>_. bindM (random_choice ''abcdefgh'') (\<lambda>c. returnM (''/dev/sd'' @ [c]))),
      (''{sector}'', \<lambda>_. randint_str 0 999999),
      (''{temp}'', \<lambda>_. randint_str 25 85),
      (''{filename}'', \<lambda>_.
         bindM (randint_str 1 1000) (\<lambda>v. returnM (''/path/to/file_'' @ v @ ''.dat''))),
      (''{wait_time}'', \<lambda>_. randint_str 5 500),
      (''{core}'', \<lambda>_. randint_str 0 31),
      (''{cycles}'', \<lambda>_. randint_str 1000000 9999999),
      (''{fs}'', \<lambda>_. random_choice [''/home'', ''/scratch'', ''/tmp'', ''/var'', ''/usr'']),
      (''{path}'', \<lambda>_.
         bindM (randint_str 1 1000) (\<lambda>v. returnM (''/path/to/file_'' @ v @ ''.dat''))),
      (''{job_id}'', \<lambda>_. randint_str 1000 9999),
      (''{exit_code}'', \<lambda>_. randint_str 1 255),
      (''{node_range}'', \<lambda>_.
         bindM (getsM num_nodes) (\<lambda>n.
         bindM (randint 0 (n - 10)) (\<lambda>start.
         bindM (randint 1 10) (\<lambda>len.
         returnM (fmt_d 4 start @ ''-'' @ fmt_d 4 (start + len)))))),
      (''{duration}'', \<lambda>_. randint_str 10 86400),
      (''{psu}'', \<lambda>_. bindM (randint_str 1 4) (\<lambda>v. returnM (''PSU'' @ v))),
      (''{rack_id}'', \<lambda>_. bindM (randint 1 16) (\<lambda>v. returnM (''R'' @ fmt_d 2 v))),
      (''{watts}'', \<lambda>_. randint_str 100 1500),
      (''{rail}'', \<lambda>_. random_choice [''3.3V'', ''5V'', ''12V'']),
      (''{fan_id}'', \<lambda>_. bindM (randint_str 1 8) (\<lambda>v. returnM (''FAN'' @ v))),
      (''{error_code}'', \<lambda>_. bindM (randint 1 999) (\<lambda>v. returnM (''E'' @ fmt_d 3 v))),
      (''{app_name}'', \<lambda>_.
         random_choice [''mpi_app'', ''linpack'', ''hpcg'', ''gromacs'', ''namd'', ''vasp'']),
      (''{signal}'', \<lambda>_. random_choice [''SIGSEGV'', ''SIGABRT'', ''SIGTERM'', ''SIGKILL'']),
      (''{timestamp}'', \<lambda>_. bindM generate_timestamp (\<lambda>ts. returnM (timestamp_text ts))),
      (''{mem_amount}'', \<lambda>_. randint_str 1 128),
      (''{syscall}'', \<lambda>_.
         random_choice [''read'', ''write'', ''open'', ''close'', ''fork'', ''exec'']),
      (''{errno}'', \<lambda>_. randint_str 1 255),
      (''{module}'', \<lambda>_. random_choice [''nvidia'', ''infiniband'', ''lustre'', ''nfs'', ''rdma'']),
      (''{priority}'', \<lambda>_. randint_str 1 99),
      (''{scheduler}'', \<lambda>_. random_choice [''cfq'', ''noop'', ''deadline'']),
      (''{speed}'', \<lambda>_. randint_str 50 500),
      (''{freq}'', \<lambda>_. bindM (random_uniform 2 4) (\<lambda>x. returnM (fmt_2f x))),
      (''{waiting}'', \<lambda>_. randint_str 0 100),
      (''{running}'', \<lambda>_. randint_str 10 500),
      (''{count}'', \<lambda>_. randint_str 2 64),
      (''{cpu_free}'', \<lambda>_. randint_str 10 1000),
      (''{mem_free}'', \<lambda>_. randint_str 100 10000)]"

definition fill_placeholder ::
  "int \<Rightarrow> string \<times> (int \<Rightarrow> string sim) \<Rightarrow> string \<Rightarrow> string sim" where
  "fill_placeholder node_id p message =
     (if contains (fst p) message
      then bindM (snd p node_id) (\<lambda>v. returnM (str_replace (fst p) v message))
      else returnM message)"

definition fill_template_placeholders :: "string \<Rightarrow> int \<Rightarrow> string sim" where
  "fill_template_placeholders template node_id =
     for_loop placeholders (fill_placeholder node_id) template"

section \<open>The severity model\<close>

text \<open>
  The weights are a dictionary from severity to float, in insertion order. The model
  computes with the exact rationals \<open>1.2 = 6/5\<close> and \<open>1.1 = 11/10\<close>; the rounding of
  the float operations is not modelled.
\<close>

definition severity_levels :: "(severity \<times> rat) list" where
  "severity_levels = [(INFO, 7 / 10), (WARNING, 15 / 100), (ERROR, 1 / 10), (FATAL, 5 / 100)]"

text \<open>\<^verbatim>\<open>severity_weights[k] *= f\<close>.\<close>

definition scale_weight ::
  "severity \<Rightarrow> rat \<Rightarrow> (severity \<times> rat) list \<Rightarrow> (severity \<times> rat) list" where
  "scale_weight k f w = map (\<lambda>(k', v). if k' = k then (k', v * f) else (k', v)) w"

fun accumulate :: "rat \<Rightarrow> rat list \<Rightarrow> rat list" where
  "accumulate a [] = []"
| "accumulate a (x # xs) = (a + x) # accumulate (a + x) xs"

text \<open>
  \<^verbatim>\<open>random.choices(population, weights=weights)[0]\<close>: the running sums of the weights,
  one draw scaled by their total, and \<^verbatim>\<open>bisect\<close> over all sums but the last, which on
  the ascending sums counts those not above the draw.
\<close>

definition random_choices :: "'a list \<Rightarrow> rat list \<Rightarrow> 'a sim" where
  "random_choices population weights =
     (let cum_weights = accumulate 0 weights in
      case rev cum_weights of
        [] \<Rightarrow> raiseM IndexError
      | total_weight # _ \<Rightarrow>
          if total_weight \<le> 0 then raiseM ValueError
          else bindM random_random (\<lambda>r.
            returnM (population !
              length (takeWhile (\<lambda>c. c \<le> r * total_weight) (butlast cum_weights)))))"

definition get_severity :: "component option \<Rightarrow> int option \<Rightarrow> severity sim" where
  "get_severity component node_id =
     bindM (case node_id of
              None \<Rightarrow> returnM False
            | Some n \<Rightarrow>
                bindM (getsM node_status) (\<lambda>st.
                  case st n of
                    None \<Rightarrow> raiseM KeyError
                  | Some v \<Rightarrow> returnM (v \<noteq> OPERATIONAL))) (\<lambda>failing.
     bindM (if failing
            then returnM [(INFO, 2 / 10), (WARNING, 3 / 10), (ERROR, 4 / 10), (FATAL, 1 / 10)]
            else bindM random_random (\<lambda>r.
                 bindM (getsM error_rate) (\<lambda>rate.
                 returnM
                   (if r < rate
                    then scale_weight FATAL (6 / 5)
                           (scale_weight ERROR (6 / 5)
                             (scale_weight WARNING (6 / 5) severity_levels))
                    else scale_weight INFO (6 / 5) severity_levels)))) (\<lambda>w1.
     let w2 = (if component \<in> set [Some MEMORY, Some PROCESSOR, Some POWER]
               then scale_weight FATAL (11 / 10) (scale_weight ERROR (6 / 5) w1)
               else w1);
         w3 = (if component \<in> set [Some SCHEDULER, Some FILESYSTEM, Some NETWORK]
               then scale_weight INFO (6 / 5) w2
               else w2);
         total_weight = sum_list (map snd w3)
     in if total_weight = 0 then raiseM ZeroDivisionError
        else random_choices (map fst w3) (map (\<lambda>(k, v). v / total_weight) w3)))"

section \<open>Node statuses and the registry of active anomalies\<close>

text \<open>\<^verbatim>\<open>self.node_status[node_id] = status\<close>.\<close>

definition set_node_status :: "int \<Rightarrow> status \<Rightarrow> unit sim" where
  "set_node_status node_id st =
     modifyM (\<lambda>s. s\<lparr>node_status := (node_status s)(node_id \<mapsto> st)\<rparr>)"

text \<open>The list a \<^verbatim>\<open>defaultdict(list)\<close> gives for a key: the empty list when the key is not there.\<close>

definition dict_get :: "anomaly_kind \<Rightarrow> (anomaly_kind \<times> int list) list \<Rightarrow> int list" where
  "dict_get k d = (case map_of d k of None \<Rightarrow> [] | Some v \<Rightarrow> v)"

text \<open>\<^verbatim>\<open>self.active_anomalies[k].extend(nodes)\<close>; a new key goes to the end.\<close>

definition active_extend :: "anomaly_kind \<Rightarrow> int list \<Rightarrow> unit sim" where
  "active_extend k nodes =
     modifyM (\<lambda>s. s\<lparr>active_anomalies :=
       AList.update k (dict_get k (active_anomalies s) @ nodes) (active_anomalies s)\<rparr>)"

text \<open>\<^verbatim>\<open>self.active_anomalies[k] = []\<close>.\<close>

definition active_clear :: "anomaly_kind \<Rightarrow> unit sim" where
  "active_clear k =
     modifyM (\<lambda>s. s\<lparr>active_anomalies := AList.update k [] (active_anomalies s)\<rparr>)"

text \<open>Reading \<^verbatim>\<open>self.active_anomalies[k]\<close>: a missing key is created with the empty list.\<close>

definition active_getitem :: "anomaly_kind \<Rightarrow> int list sim" where
  "active_getitem k =
     bindM (getsM active_anomalies) (\<lambda>d.
       case map_of d k of
         Some v \<Rightarrow> returnM v
       | None \<Rightarrow>
           bindM (modifyM (\<lambda>s. s\<lparr>active_anomalies := d @ [(k, [])]\<rparr>)) (\<lambda>_. returnM []))"

text \<open>\<^verbatim>\<open>any(self.active_anomalies.values())\<close>: some list is not empty.\<close>

definition any_active :: "simulator \<Rightarrow> bool" where
  "any_active s = list_ex (\<lambda>(k, v). v \<noteq> []) (active_anomalies s)"

text \<open>\<^verbatim>\<open>xs[0]\<close>.\<close>

definition first_item :: "'a list \<Rightarrow> 'a sim" where
  "first_item xs = (case xs of [] \<Rightarrow> raiseM IndexError | x # _ \<Rightarrow> returnM x)"

text \<open>
  The statements that close every event of the source: stamp the time, format the entry,
  append it to \<^verbatim>\<open>messages\<close>; and the same after filling the template.
\<close>

definition append_entry ::
  "int \<Rightarrow> component \<Rightarrow> severity \<Rightarrow> string \<Rightarrow> log_entry list \<Rightarrow> log_entry list sim" where
  "append_entry node_id component severity message messages =
     bindM generate_timestamp (\<lambda>timestamp.
     returnM (messages @ [format_log_entry timestamp node_id component severity message]))"

definition fill_and_append ::
  "int \<Rightarrow> component \<Rightarrow> severity \<Rightarrow> string \<Rightarrow> log_entry list \<Rightarrow> log_entry list sim" where
  "fill_and_append node_id component severity template messages =
     bindM (fill_template_placeholders template node_id) (\<lambda>message.
     append_entry node_id component severity message messages)"

section \<open>Anomaly onset\<close>

text \<open>
  \<^verbatim>\<open>_create_anomaly\<close> draws the kind and runs the branch of that kind. Each branch is a
  definition of its own; \<open>create_anomaly\<close> puts them together as the source's
  \<^verbatim>\<open>if\<close>/\<^verbatim>\<open>elif\<close> chain does.
\<close>

definition create_network_partition :: "(log_entry list \<times> int list) sim" where
  "create_network_partition =
     bindM (getsM num_nodes) (\<lambda>n.
     bindM (randint 0 (n - 100)) (\<lambda>start_node.
     bindM (randint 10 100) (\<lambda>affected_count.
     let affected_nodes = py_range start_node (start_node + affected_count) in
     bindM (for_loop affected_nodes (\<lambda>node_id messages.
              bindM (set_node_status node_id NETWORK_DEGRADED) (\<lambda>_.
              fill_and_append node_id NETWORK ERROR
                ''Network connectivity lost on node {node_id}, isolating from cluster''
                messages)) []) (\<lambda>messages.
     bindM (active_extend network_partition affected_nodes) (\<lambda>_.
     returnM (messages, affected_nodes))))))"

definition create_rack_power_failure :: "(log_entry list \<times> int list) sim" where
  "create_rack_power_failure =
     bindM (getsM num_nodes) (\<lambda>n.
     bindM (randint 0 (n div 32 - 1)) (\<lambda>rack_id.
     let start_node = rack_id * 32;
         affected_nodes = py_range start_node (start_node + 32);
         message = str_replace ''{rack_id}'' (''R'' @ fmt_d 2 rack_id)
                     ''Power supply failure on rack {rack_id}, nodes shutting down'' in
     bindM generate_timestamp (\<lambda>timestamp.
     bindM (first_item affected_nodes) (\<lambda>first_node.
     bindM (for_loop affected_nodes (\<lambda>node_id messages.
              bindM (set_node_status node_id POWERED_OFF) (\<lambda>_.
              fill_and_append node_id POWER ERROR
                ''Node {node_id} shutting down due to power failure'' messages))
              [format_log_entry timestamp first_node POWER FATAL message]) (\<lambda>messages.
     bindM (active_extend rack_power_failure affected_nodes) (\<lambda>_.
     returnM (messages, affected_nodes)))))))"

definition create_filesystem_corruption :: "(log_entry list \<times> int list) sim" where
  "create_filesystem_corruption =
     bindM (getsM num_nodes) (\<lambda>n.
     bindM (randint 5 20) (\<lambda>affected_count.
     bindM (random_sample (py_range 0 n) affected_count) (\<lambda>affected_nodes.
     bindM (random_choice [''/home'', ''/scratch'', ''/tmp'']) (\<lambda>fs_name.
     bindM (for_loop affected_nodes (\<lambda>node_id messages.
              bindM (set_node_status node_id FILESYSTEM_ERROR) (\<lambda>_.
              fill_and_append node_id FILESYSTEM ERROR
                (''Filesystem '' @ fs_name
                   @ '' corruption detected on node {node_id}, remounting read-only'')
                messages)) []) (\<lambda>messages.
     bindM (active_extend filesystem_corruption affected_nodes) (\<lambda>_.
     returnM (messages, affected_nodes)))))))"

text \<open>The body of the cascade loop of \<^verbatim>\<open>memory_errors\<close>, for the index \<open>i\<close>.\<close>

definition memory_cascade_step ::
  "int \<Rightarrow> int \<Rightarrow> int \<Rightarrow> log_entry list \<Rightarrow> log_entry list sim" where
  "memory_cascade_step node_id error_count i messages =
     bindM (if i < 2
            then returnM (WARNING,
                   ''Memory ECC error detected at address 0x{address} on node {node_id}'')
            else if i < error_count - 1
            then bindM (randint_str 0 7) (\<lambda>v.
                 returnM (ERROR,
                   str_replace ''{dimm_id}'' (''DIMM'' @ v)
                     ''Multiple memory errors detected on node {node_id}, DIMM {dimm_id} failing''))
            else returnM (FATAL,
                   ''Uncorrectable memory errors on node {node_id}, taking node offline''))
       (\<lambda>(severity, template).
     fill_and_append node_id MEMORY severity template messages)"

definition create_memory_errors :: "(log_entry list \<times> int list) sim" where
  "create_memory_errors =
     bindM (getsM num_nodes) (\<lambda>n.
     bindM (randint 0 (n - 1)) (\<lambda>node_id.
     let affected_nodes = [node_id] in
     bindM (set_node_status node_id MEMORY_ERROR) (\<lambda>_.
     bindM (randint 3 10) (\<lambda>error_count.
     bindM (for_loop (py_range 0 error_count) (memory_cascade_step node_id error_count) [])
       (\<lambda>messages.
     bindM (active_extend memory_errors [node_id]) (\<lambda>_.
     returnM (messages, affected_nodes)))))))"

text \<open>The body of the loop of \<^verbatim>\<open>overheating\<close>.\<close>

definition overheating_step :: "int \<Rightarrow> log_entry list \<Rightarrow> log_entry list sim" where
  "overheating_step node_id messages =
     bindM (set_node_status node_id OVERHEATING) (\<lambda>_.
     bindM (randint 75 95) (\<lambda>temp.
     let (severity, template) =
           (if temp > 90
            then (FATAL, ''CRITICAL: Temperature at {temp}'' @ deg
                           @ ''C on node {node_id}, emergency shutdown initiated'')
            else if temp > 85
            then (ERROR, ''Temperature threshold exceeded at {temp}'' @ deg
                           @ ''C on node {node_id}, throttling enabled'')
            else (WARNING, ''High temperature warning at {temp}'' @ deg
                           @ ''C on node {node_id}''))
     in fill_and_append node_id TEMPERATURE severity
          (str_replace ''{temp}'' (str_int temp) template) messages))"

definition create_overheating :: "(log_entry list \<times> int list) sim" where
  "create_overheating =
     bindM (getsM num_nodes) (\<lambda>n.
     bindM (randint 0 (n - 32)) (\<lambda>start_node.
     bindM (randint 5 32) (\<lambda>affected_count.
     let affected_nodes = py_range start_node (start_node + affected_count) in
     bindM (for_loop affected_nodes overheating_step []) (\<lambda>messages.
     bindM (active_extend overheating affected_nodes) (\<lambda>_.
     returnM (messages, affected_nodes))))))"

definition anomaly_kinds :: "anomaly_kind list" where
  "anomaly_kinds =
     [network_partition, rack_power_failure, filesystem_corruption, memory_errors, overheating]"

definition create_anomaly :: "(log_entry list \<times> int list) sim" where
  "create_anomaly =
     bindM (random_choice anomaly_kinds) (\<lambda>anomaly_type.
       case anomaly_type of
         network_partition \<Rightarrow> create_network_partition
       | rack_power_failure \<Rightarrow> create_rack_power_failure
       | filesystem_corruption \<Rightarrow> create_filesystem_corruption
       | memory_errors \<Rightarrow> create_memory_errors
       | overheating \<Rightarrow> create_overheating)"

section \<open>Anomaly continuation and resolution\<close>

text \<open>
  The branch \<^verbatim>\<open>if random.random() < 0.1:\<close> of \<^verbatim>\<open>_continue_anomaly\<close>, which resolves
  the anomaly of the chosen kind; \<open>affected_nodes\<close> is the list found for that kind.
\<close>

definition resolve_anomaly :: "anomaly_kind \<Rightarrow> int list \<Rightarrow> log_entry list sim" where
  "resolve_anomaly anomaly_type affected_nodes =
     (case anomaly_type of
        network_partition \<Rightarrow>
          bindM (for_loop affected_nodes (\<lambda>node_id messages.
                   bindM (set_node_status node_id OPERATIONAL) (\<lambda>_.
                   fill_and_append node_id NETWORK INFO
                     ''Network connectivity restored on node {node_id}'' messages)) [])
            (\<lambda>messages.
          bindM (active_clear anomaly_type) (\<lambda>_. returnM messages))
      | rack_power_failure \<Rightarrow>
          bindM (first_item affected_nodes) (\<lambda>node_id.
          let rack_id = node_id div 32;
              message = str_replace ''{rack_id}'' (''R'' @ fmt_d 2 rack_id)
                          ''Power restored to rack, initiating node startup sequence'' in
          bindM (append_entry node_id POWER INFO message []) (\<lambda>messages.
          bindM (for_loop affected_nodes (\<lambda>node_id messages.
                   bindM (set_node_status node_id OPERATIONAL) (\<lambda>_.
                   fill_and_append node_id POWER INFO
                     ''Node {node_id} power on self-test completed successfully'' messages))
                   messages) (\<lambda>messages.
          bindM (active_clear anomaly_type) (\<lambda>_. returnM messages))))
      | filesystem_corruption \<Rightarrow>
          bindM (for_loop affected_nodes (\<lambda>node_id messages.
                   bindM (set_node_status node_id OPERATIONAL) (\<lambda>_.
                   fill_and_append node_id FILESYSTEM INFO
                     ''Filesystem check completed successfully on node {node_id}, remounting read-write''
                     messages)) []) (\<lambda>messages.
          bindM (active_clear anomaly_type) (\<lambda>_. returnM messages))
      | memory_errors \<Rightarrow>
          bindM (first_item affected_nodes) (\<lambda>node_id.
          bindM (set_node_status node_id OPERATIONAL) (\<lambda>_.
          bindM (fill_and_append node_id MEMORY INFO
                   ''Memory diagnostics completed on node {node_id}, DIMM replaced, node back online''
                   []) (\<lambda>messages.
          bindM (active_clear anomaly_type) (\<lambda>_. returnM messages))))
      | overheating \<Rightarrow>
          bindM (for_loop affected_nodes (\<lambda>node_id messages.
                   bindM (set_node_status node_id OPERATIONAL) (\<lambda>_.
                   bindM (randint_str 45 65) (\<lambda>v.
                   fill_and_append node_id TEMPERATURE INFO
                     (str_replace ''{temp}'' v
                        (''Temperature normalized at {temp}'' @ deg
                           @ ''C on node {node_id}, resuming normal operation''))
                     messages))) []) (\<lambda>messages.
          bindM (active_clear anomaly_type) (\<lambda>_. returnM messages)))"

text \<open>
  The template of a follow-up event, by kind: the component, the severity and the
  template after the replacements made before \<^verbatim>\<open>_fill_template_placeholders\<close>.
\<close>

definition ongoing_template ::
  "anomaly_kind \<Rightarrow> int \<Rightarrow> (component \<times> severity \<times> string) sim" where
  "ongoing_template anomaly_type node_id =
     (case anomaly_type of
        network_partition \<Rightarrow>
          bindM (random_choice
                  [''Failed to reestablish network connectivity on node {node_id}'',
                   ''Packet loss at {percent}% on node {node_id}, network degraded'',
                   ''Retry {attempt} to reconnect node {node_id} failed'']) (\<lambda>template.
          bindM (randint_str 1 5) (\<lambda>v.
          returnM (NETWORK, ERROR, str_replace ''{attempt}'' v template)))
      | rack_power_failure \<Rightarrow>
          bindM (random_choice
                  [''Power supply {psu} still offline on rack {rack_id}'',
                   ''UPS battery at {percent}%, critical level'',
                   ''Power restoration delayed, ETA {minutes} minutes'']) (\<lambda>template.
          bindM (randint_str 5 30) (\<lambda>v.
          let template = str_replace ''{minutes}'' v template;
              rack_id = node_id div 32
          in returnM (POWER, ERROR,
               str_replace ''{rack_id}'' (''R'' @ fmt_d 2 rack_id) template)))
      | filesystem_corruption \<Rightarrow>
          bindM (random_choice
                  [''Filesystem check found {count} corrupted inodes on node {node_id}'',
                   ''Repair attempt {attempt} failed on node {node_id}'',
                   ''I/O errors continue on device {device} on node {node_id}'']) (\<lambda>template.
          bindM (randint_str 10 1000) (\<lambda>v.
          let template = str_replace ''{count}'' v template in
          bindM (randint_str 1 3) (\<lambda>v.
          returnM (FILESYSTEM, ERROR, str_replace ''{attempt}'' v template))))
      | memory_errors \<Rightarrow>
          bindM (random_choice
                  [''Memory errors continue on node {node_id}, address range 0x{address}'',
                   ''DIMM {dimm_id} scheduled for replacement on node {node_id}'',
                   ''Uncorrectable memory error at 0x{address} on node {node_id}'']) (\<lambda>template.
          bindM (randint_str 0 7) (\<lambda>v.
          returnM (MEMORY, ERROR, str_replace ''{dimm_id}'' (''DIMM'' @ v) template)))
      | overheating \<Rightarrow>
          bindM (randint 75 95) (\<lambda>temp.
          bindM (random_choice
                  [''Temperature still critical at '' @ str_int temp @ deg
                     @ ''C on node {node_id}'',
                   ''Cooling system failure persists on node {node_id}, temp '' @ str_int temp
                     @ deg @ ''C'',
                   ''Unable to reduce temperature below '' @ str_int temp @ deg
                     @ ''C on node {node_id}'']) (\<lambda>template.
          returnM (TEMPERATURE, ERROR, template))))"

text \<open>The \<^verbatim>\<open>else\<close> branch of \<^verbatim>\<open>_continue_anomaly\<close>: one follow-up event.\<close>

definition ongoing_anomaly :: "anomaly_kind \<Rightarrow> log_entry list sim" where
  "ongoing_anomaly anomaly_type =
     bindM (active_getitem anomaly_type) (\<lambda>nodes.
     if nodes \<noteq> [] then
       bindM (active_getitem anomaly_type) (\<lambda>nodes.
       bindM (random_choice nodes) (\<lambda>node_id.
       bindM (ongoing_template anomaly_type node_id) (\<lambda>(component, severity, template).
       fill_and_append node_id component severity template [])))
     else returnM [])"

definition continue_anomaly :: "log_entry list sim" where
  "continue_anomaly =
     bindM (getsM active_anomalies) (\<lambda>d.
     if d = [] then returnM []
     else
       let active = filter (\<lambda>(k, v). v \<noteq> []) d in
       if active = [] then returnM []
       else
         bindM (random_choice (map fst active)) (\<lambda>anomaly_type.
         bindM (case map_of active anomaly_type of
                  None \<Rightarrow> raiseM KeyError
                | Some v \<Rightarrow> returnM v) (\<lambda>affected_nodes.
         bindM random_random (\<lambda>r.
         if r < 1 / 10 then resolve_anomaly anomaly_type affected_nodes
         else ongoing_anomaly anomaly_type))))"

section \<open>The generation loop\<close>

text \<open>The last part of the loop body of \<^verbatim>\<open>generate_logs\<close>: one normal log.\<close>

definition normal_log :: "log_entry list sim" where
  "normal_log =
     bindM (getsM num_nodes) (\<lambda>n.
     bindM (randint 0 (n - 1)) (\<lambda>node_id.
     bindM (random_choice components) (\<lambda>component.
     bindM (get_severity (Some component) (Some node_id)) (\<lambda>severity.
     bindM (random_choice (message_templates component)) (\<lambda>template.
     fill_and_append node_id component severity template [])))))"

text \<open>
  One iteration of the loop, giving the entries it adds to \<^verbatim>\<open>logs\<close>. The first draw is
  made in every iteration; the draw against \<open>0.3\<close> only when an anomaly is active
  (\<^verbatim>\<open>and\<close> evaluates its right operand only then). On the grid of \<^verbatim>\<open>random.random()\<close>
  the comparisons with the floats \<open>0.1\<close> and \<open>0.3\<close> agree with those with \<open>1/10\<close> and
  \<open>3/10\<close>.
\<close>

definition generate_logs_step :: "log_entry list sim" where
  "generate_logs_step =
     bindM random_random (\<lambda>r.
     bindM (getsM anomaly_probability) (\<lambda>p.
     bindM (getsM any_active) (\<lambda>active.
     if r < p \<and> \<not> active then
       bindM create_anomaly (\<lambda>(anomaly_logs, _). returnM anomaly_logs)
     else
       bindM (if active then bindM random_random (\<lambda>r. returnM (r < 3 / 10))
              else returnM False) (\<lambda>continuing.
       if continuing then continue_anomaly else normal_log))))"

definition generate_logs :: "int \<Rightarrow> log_entry list sim" where
  "generate_logs count =
     for_loop (py_range 0 count)
       (\<lambda>_ logs. bindM generate_logs_step (\<lambda>new_logs. returnM (logs @ new_logs))) []"

text \<open>
  The constructor: every node of \<^verbatim>\<open>range(num_nodes)\<close> operational, no anomaly registered,
  the clock at the time of construction, the generator in any state.
\<close>

definition BGLLogSimulator ::
  "int \<Rightarrow> int \<Rightarrow> rat \<Rightarrow> rat \<Rightarrow> int \<Rightarrow> (nat \<Rightarrow> nat) \<Rightarrow> simulator" where
  "BGLLogSimulator n c e p now draws =
     \<lparr>num_nodes = n, num_components = c, error_rate = e, anomaly_probability = p,
      node_status = (\<lambda>i. if 0 \<le> i \<and> i < n then Some OPERATIONAL else None),
      current_time = now, active_anomalies = [], rng_draws = draws, rng_pos = 0\<rparr>"

section \<open>Specification predicates\<close>

text \<open>
  \<open>outcome t m Q s\<close>: running \<open>m\<close> from \<open>s\<close> returns a result and a state that satisfy
  \<open>Q\<close>; when \<open>t\<close> is false an exception is allowed as well (nothing is then said), when
  \<open>t\<close> is true the run must return.
\<close>

definition outcome :: "bool \<Rightarrow> 'a sim \<Rightarrow> ('a \<Rightarrow> simulator \<Rightarrow> bool) \<Rightarrow> simulator \<Rightarrow> bool" where
  "outcome t m Q s = (case m s of Inl e \<Rightarrow> \<not> t | Inr (x, s') \<Rightarrow> Q x s')"

text \<open>What no method changes: the configuration and the sequence of draws; the clock and
  the number of draws only grow.\<close>

definition steady :: "simulator \<Rightarrow> simulator \<Rightarrow> bool" where
  "steady s s' \<longleftrightarrow>
     num_nodes s' = num_nodes s \<and> num_components s' = num_components s \<and>
     error_rate s' = error_rate s \<and> anomaly_probability s' = anomaly_probability s \<and>
     rng_draws s' = rng_draws s \<and> rng_pos s \<le> rng_pos s' \<and>
     current_time s \<le> current_time s'"

text \<open>A step that also leaves the node statuses and the registry alone.\<close>

definition quiet :: "simulator \<Rightarrow> simulator \<Rightarrow> bool" where
  "quiet s s' \<longleftrightarrow>
     steady s s' \<and> node_status s' = node_status s \<and>
     active_anomalies s' = active_anomalies s"

text \<open>Entries stamped between the clocks of two states, in non-decreasing order.\<close>

definition stamped :: "simulator \<Rightarrow> log_entry list \<Rightarrow> simulator \<Rightarrow> bool" where
  "stamped s logs s' \<longleftrightarrow>
     sorted (map log_timestamp logs) \<and>
     list_all (\<lambda>l. current_time s div 1000 \<le> log_timestamp l \<and>
                   log_timestamp l \<le> current_time s' div 1000) logs"

text \<open>One iteration of a loop over nodes: the status of the node is set and one entry
  for it is appended. \<open>nodes_done\<close> is what the whole loop has then done.\<close>

definition node_step ::
  "status \<Rightarrow> (log_entry \<Rightarrow> bool) \<Rightarrow> int \<Rightarrow> log_entry list \<Rightarrow> simulator
     \<Rightarrow> log_entry list \<Rightarrow> simulator \<Rightarrow> bool" where
  "node_step st P n acc s acc' s' \<longleftrightarrow>
     (\<exists>e. acc' = acc @ [e] \<and> log_node_id e = n \<and> P e \<and>
          log_timestamp e = current_time s' div 1000) \<and>
     steady s s' \<and> active_anomalies s' = active_anomalies s \<and>
     node_status s' = (node_status s)(n \<mapsto> st)"

definition nodes_done ::
  "status \<Rightarrow> (log_entry \<Rightarrow> bool) \<Rightarrow> int list \<Rightarrow> log_entry list \<Rightarrow> simulator
     \<Rightarrow> log_entry list \<Rightarrow> simulator \<Rightarrow> bool" where
  "nodes_done st P nodes acc s acc' s' \<longleftrightarrow>
     (\<exists>es. acc' = acc @ es \<and> map log_node_id es = nodes \<and> list_all P es \<and>
           stamped s es s') \<and>
     steady s s' \<and> active_anomalies s' = active_anomalies s \<and>
     node_status s' = (\<lambda>i. if i \<in> set nodes then Some st else node_status s i)"

text \<open>One iteration of a loop that changes neither statuses nor registry and appends one
  entry, related to the loop element by \<open>P\<close>; and what the whole loop has then done.\<close>

definition entry_step ::
  "('a \<Rightarrow> log_entry \<Rightarrow> bool) \<Rightarrow> 'a \<Rightarrow> log_entry list \<Rightarrow> simulator
     \<Rightarrow> log_entry list \<Rightarrow> simulator \<Rightarrow> bool" where
  "entry_step P x acc s acc' s' \<longleftrightarrow>
     (\<exists>e. acc' = acc @ [e] \<and> P x e \<and> log_timestamp e = current_time s' div 1000) \<and>
     quiet s s'"

definition entries_done ::
  "('a \<Rightarrow> log_entry \<Rightarrow> bool) \<Rightarrow> 'a list \<Rightarrow> log_entry list \<Rightarrow> simulator
     \<Rightarrow> log_entry list \<Rightarrow> simulator \<Rightarrow> bool" where
  "entries_done P xs acc s acc' s' \<longleftrightarrow>
     (\<exists>es. acc' = acc @ es \<and> list_all2 P xs es \<and> stamped s es s') \<and> quiet s s'"

text \<open>The effect of an onset of kind \<open>k\<close> on the statuses and the registry.\<close>

definition onset ::
  "anomaly_kind \<Rightarrow> status \<Rightarrow> simulator \<Rightarrow> log_entry list \<Rightarrow> int list \<Rightarrow> simulator \<Rightarrow> bool" where
  "onset k st s logs affected s' \<longleftrightarrow>
     steady s s' \<and> stamped s logs s' \<and>
     node_status s' = (\<lambda>i. if i \<in> set affected then Some st else node_status s i) \<and>
     active_anomalies s' =
       AList.update k (dict_get k (active_anomalies s) @ affected) (active_anomalies s)"

text \<open>The severity of the \<open>i\<close>-th event of a memory cascade of \<open>error_count\<close> events.\<close>

definition cascade_severity :: "int \<Rightarrow> int \<Rightarrow> severity" where
  "cascade_severity error_count i =
     (if i < 2 then WARNING else if i < error_count - 1 then ERROR else FATAL)"

text \<open>A non-empty table of weights, all positive.\<close>

definition positive_weights :: "(severity \<times> rat) list \<Rightarrow> bool" where
  "positive_weights w \<longleftrightarrow> w \<noteq> [] \<and> list_all (\<lambda>(k, v). 0 < v) w"

text \<open>The status an anomaly of each kind gives its nodes, and the component of its events.\<close>

definition degraded_status :: "anomaly_kind \<Rightarrow> status" where
  "degraded_status k =
     (case k of
        network_partition \<Rightarrow> NETWORK_DEGRADED
      | rack_power_failure \<Rightarrow> POWERED_OFF
      | filesystem_corruption \<Rightarrow> FILESYSTEM_ERROR
      | memory_errors \<Rightarrow> MEMORY_ERROR
      | overheating \<Rightarrow> OVERHEATING)"

definition kind_component :: "anomaly_kind \<Rightarrow> component" where
  "kind_component k =
     (case k of
        network_partition \<Rightarrow> NETWORK
      | rack_power_failure \<Rightarrow> POWER
      | filesystem_corruption \<Rightarrow> FILESYSTEM
      | memory_errors \<Rightarrow> MEMORY
      | overheating \<Rightarrow> TEMPERATURE)"

text \<open>
  The nodes a resolution resets: all of the list, but only the first for \<^verbatim>\<open>memory_errors\<close>
  (its branch handles \<^verbatim>\<open>affected_nodes[0]\<close> alone). \<open>resolution\<close> is the effect of the
  resolving branch on entries, statuses and registry; \<open>continuation\<close> that of the other branch.
\<close>

definition resolved_nodes :: "anomaly_kind \<Rightarrow> int list \<Rightarrow> int list" where
  "resolved_nodes k nodes = (if k = memory_errors then take 1 nodes else nodes)"

definition resolution ::
  "anomaly_kind \<Rightarrow> int list \<Rightarrow> simulator \<Rightarrow> log_entry list \<Rightarrow> simulator \<Rightarrow> bool" where
  "resolution k nodes s logs s' \<longleftrightarrow>
     (\<exists>master es. logs = master @ es \<and>
        (if k = rack_power_failure then map log_node_id master = take 1 nodes else master = []) \<and>
        map log_node_id es = resolved_nodes k nodes) \<and>
     list_all (\<lambda>e. log_severity e = INFO \<and> log_component e = kind_component k) logs \<and>
     stamped s logs s' \<and> steady s s' \<and>
     node_status s' =
       (\<lambda>i. if i \<in> set (resolved_nodes k nodes) then Some OPERATIONAL else node_status s i) \<and>
     active_anomalies s' = AList.update k [] (active_anomalies s)"

definition continuation ::
  "anomaly_kind \<Rightarrow> int list \<Rightarrow> simulator \<Rightarrow> log_entry list \<Rightarrow> simulator \<Rightarrow> bool" where
  "continuation k nodes s logs s' \<longleftrightarrow>
     (\<exists>e. logs = [e] \<and> log_node_id e \<in> set nodes \<and> log_severity e = ERROR \<and>
          log_component e = kind_component k \<and>
          log_timestamp e = current_time s' div 1000) \<and>
     quiet s s'"

text \<open>What \<^verbatim>\<open>_continue_anomaly\<close> has done when it returns.\<close>

definition continued ::
  "simulator \<Rightarrow> log_entry list \<Rightarrow> simulator \<Rightarrow> bool" where
  "continued s logs s' \<longleftrightarrow>
     stamped s logs s' \<and> steady s s' \<and>
     (distinct (map fst (active_anomalies s)) \<longrightarrow> any_active s \<longrightarrow>
        (\<exists>k nodes. map_of (active_anomalies s) k = Some nodes \<and> nodes \<noteq> [] \<and>
           (resolution k nodes s logs s' \<or> continuation k nodes s logs s')))"

section \<open>The states of a run\<close>

text \<open>
  The invariant of the states between two iterations of the generation loop. The keys of
  the registry are distinct (it is a dictionary); at most one kind has a non-empty list;
  the nodes listed for a kind are nodes of the machine and carry the degraded status of
  that kind; the list of \<^verbatim>\<open>memory_errors\<close> has at most one node; a node whose status is
  not \<^verbatim>\<open>OPERATIONAL\<close> is listed; and every node of the machine has a status.
\<close>

definition consistent :: "simulator \<Rightarrow> bool" where
  "consistent s \<longleftrightarrow>
     distinct (map fst (active_anomalies s)) \<and>
     (\<forall>k nodes k' nodes'.
        map_of (active_anomalies s) k = Some nodes \<and> nodes \<noteq> [] \<and>
        map_of (active_anomalies s) k' = Some nodes' \<and> nodes' \<noteq> [] \<longrightarrow> k = k') \<and>
     (\<forall>k nodes n.
        map_of (active_anomalies s) k = Some nodes \<and> n \<in> set nodes \<longrightarrow>
        0 \<le> n \<and> n < num_nodes s \<and> node_status s n = Some (degraded_status k)) \<and>
     (\<forall>nodes. map_of (active_anomalies s) memory_errors = Some nodes \<longrightarrow> length nodes \<le> 1) \<and>
     (\<forall>n st.
        node_status s n = Some st \<and> st \<noteq> OPERATIONAL \<longrightarrow>
        (\<exists>k nodes. map_of (active_anomalies s) k = Some nodes \<and> n \<in> set nodes)) \<and>
     (\<forall>n. 0 \<le> n \<and> n < num_nodes s \<longrightarrow> node_status s n \<noteq> None)"

text \<open>
  What an onset of kind \<open>k\<close> has done: a non-empty list of nodes of the machine is affected,
  at least one entry is emitted, every entry is for an affected node, and the statuses and
  the registry are updated as \<open>onset\<close> says.
\<close>

definition onset_of ::
  "anomaly_kind \<Rightarrow> simulator \<Rightarrow> log_entry list \<Rightarrow> int list \<Rightarrow> simulator \<Rightarrow> bool" where
  "onset_of k s logs affected s' \<longleftrightarrow>
     affected \<noteq> [] \<and> set affected \<subseteq> {0..<num_nodes s} \<and> logs \<noteq> [] \<and>
     set (map log_node_id logs) \<subseteq> set affected \<and>
     (k = memory_errors \<longrightarrow> length affected = 1) \<and>
     onset k (degraded_status k) s logs affected s'"

text \<open>What the normal-log part of an iteration has done: one entry, for a node of the
  machine, stamped with the clock it leaves; statuses and registry untouched.\<close>

definition normal ::
  "simulator \<Rightarrow> log_entry list \<Rightarrow> simulator \<Rightarrow> bool" where
  "normal s logs s' \<longleftrightarrow>
     (\<exists>e. logs = [e] \<and> 0 \<le> log_node_id e \<and> log_node_id e < num_nodes s \<and>
          log_timestamp e = current_time s' div 1000) \<and>
     quiet s s'"

text \<open>Every entry carries a node id of \<^verbatim>\<open>range(num_nodes)\<close>.\<close>

definition in_range :: "simulator \<Rightarrow> log_entry list \<Rightarrow> bool" where
  "in_range s logs = list_all (\<lambda>e. 0 \<le> log_node_id e \<and> log_node_id e < num_nodes s) logs"

text \<open>
  What one iteration of the loop of \<^verbatim>\<open>generate_logs\<close> has done: the entries are stamped in
  order between the two clocks and the parameters are unchanged; from a state that
  satisfies the invariant, the invariant holds again, at least one entry has been emitted
  and every entry is for a node of the machine.
\<close>

definition stepped :: "simulator \<Rightarrow> log_entry list \<Rightarrow> simulator \<Rightarrow> bool" where
  "stepped s logs s' \<longleftrightarrow>
     stamped s logs s' \<and> steady s s' \<and>
     (consistent s \<longrightarrow> consistent s' \<and> logs \<noteq> [] \<and> in_range s logs)"

text \<open>
  What \<^verbatim>\<open>generate_logs(count)\<close> has done when it returns, and what it has done when no anomaly can
  start: exactly one entry per iteration, statuses and registry untouched.
\<close>

definition generated :: "simulator \<Rightarrow> int \<Rightarrow> log_entry list \<Rightarrow> simulator \<Rightarrow> bool" where
  "generated s count logs s' \<longleftrightarrow>
     stamped s logs s' \<and> steady s s' \<and>
     (consistent s \<longrightarrow> consistent s' \<and> count \<le> int (length logs) \<and> in_range s logs)"

definition exactly :: "simulator \<Rightarrow> int \<Rightarrow> log_entry list \<Rightarrow> simulator \<Rightarrow> bool" where
  "exactly s count logs s' \<longleftrightarrow> int (length logs) = count \<and> quiet s s'"

text \<open>
  The states of a run: a simulator as the constructor leaves it, and every state that an
  iteration of the loop of \<^verbatim>\<open>generate_logs\<close> returns from such a state. These are the
  states between two iterations, in particular the states between two calls of
  \<^verbatim>\<open>generate_logs\<close>.
\<close>

inductive reachable :: "simulator \<Rightarrow> bool" where
  fresh: "reachable (BGLLogSimulator n c e p now draws)"
| tick: "reachable s \<Longrightarrow> generate_logs_step s = Inr (logs, s') \<Longrightarrow> reachable s'"

section \<open>The branch taken on given draws\<close>

text \<open>
  The state after one draw; the kind that \<^verbatim>\<open>_create_anomaly\<close> picks in \<open>s\<close> when its first
  statement \<^verbatim>\<open>random.choice(anomaly_types)\<close> reads the next draw; and the value that
  \<^verbatim>\<open>random.random()\<close> returns from the next draw.
\<close>

definition drawn :: "simulator \<Rightarrow> simulator" where
  "drawn s = s\<lparr>rng_pos := Suc (rng_pos s)\<rparr>"

definition drawn_kind :: "simulator \<Rightarrow> anomaly_kind" where
  "drawn_kind s = anomaly_kinds ! (rng_draws s (rng_pos s) mod length anomaly_kinds)"

definition drawn_random :: "simulator \<Rightarrow> rat" where
  "drawn_random s = of_nat (rng_draws s (rng_pos s) mod 2 ^ 53) / 2 ^ 53"





section \<open>Example states\<close>

text \<open>A simulator whose anomalies of two kinds have been resolved: both lists are empty.\<close>

definition cleared_simulator :: simulator where
  "cleared_simulator =
     (BGLLogSimulator 1024 10 (1 / 20) (1 / 100) 0 (\<lambda>i. i))
       \<lparr>active_anomalies := [(memory_errors, []), (overheating, [])]\<rparr>"

text \<open>The simulator with the default arguments of the constructor, and one whose
  anomaly probability is 1 and whose generator returns the same draw \<open>d\<close> for ever.\<close>

definition default_simulator :: simulator where
  "default_simulator = BGLLogSimulator 1024 10 (1 / 20) (1 / 100) 0 (\<lambda>i. i)"

definition eager_simulator :: "nat \<Rightarrow> simulator" where
  "eager_simulator d = BGLLogSimulator 1024 10 (1 / 20) 1 0 (\<lambda>i. d)"

text \<open>A machine of exactly 100 nodes, with a generator that always draws 0.\<close>

definition hundred_simulator :: simulator where
  "hundred_simulator = BGLLogSimulator 100 10 (1 / 20) 1 0 (\<lambda>i. 0)"

text \<open>
  A machine of 5 nodes with anomaly probability 0, whose generator returns the draw 16 for
  ever: \<^verbatim>\<open>random.randint(0, 4)\<close> picks node \<open>16 mod 5 = 1\<close>, \<^verbatim>\<open>random.choice\<close> picks
  the component of index \<open>16 mod 10 = 6\<close>, which is \<^verbatim>\<open>SCHEDULER\<close>, and then its template of
  index \<open>16 mod 8 = 0\<close>, the one with \<^verbatim>\<open>{node_range}\<close>.
\<close>

definition small_simulator :: simulator where
  "small_simulator = BGLLogSimulator 5 10 (1 / 20) 0 0 (\<lambda>i. 16)"



section \<open>The calculus of outcomes\<close>

lemma outcome_total_iff: "outcome True m Q s \<longleftrightarrow> (\<exists>x s'. m s = Inr (x, s') \<and> Q x s')"
  by (auto simp: outcome_def split: sum.splits)

lemma outcome_partial_iff: "outcome False m Q s \<longleftrightarrow> (\<forall>x s'. m s = Inr (x, s') \<longrightarrow> Q x s')"
  by (auto simp: outcome_def split: sum.splits)

lemma outcome_return [simp]: "outcome t (returnM x) Q s = Q x s"
  by (simp add: outcome_def returnM_def)

lemma outcome_raise [simp]: "outcome t (raiseM e) Q s = (\<not> t)"
  by (simp add: outcome_def raiseM_def)

lemma outcome_bind [simp]:
  "outcome t (bindM m f) Q s = outcome t m (\<lambda>x s'. outcome t (f x) Q s') s"
  by (simp add: outcome_def bindM_def split: sum.splits)

lemma outcome_gets [simp]: "outcome t (getsM f) Q s = Q (f s) s"
  by (simp add: outcome_def getsM_def)

lemma outcome_modify [simp]: "outcome t (modifyM f) Q s = Q () (f s)"
  by (simp add: outcome_def modifyM_def)

lemma outcome_next_draw [simp]:
  "outcome t next_draw Q s = Q (rng_draws s (rng_pos s)) (s\<lparr>rng_pos := Suc (rng_pos s)\<rparr>)"
  by (simp add: outcome_def next_draw_def)

lemma outcome_mono:
  "outcome t m Q s \<Longrightarrow> (\<And>x s'. Q x s' \<Longrightarrow> Q' x s') \<Longrightarrow> outcome t m Q' s"
  by (auto simp: outcome_def split: sum.splits)

lemma outcome_weaken: "outcome True m Q s \<Longrightarrow> outcome t m Q s"
  by (auto simp: outcome_def split: sum.splits)

lemma outcome_for_loop:
  assumes "I acc s"
    and "\<And>x acc s. x \<in> set xs \<Longrightarrow> I acc s \<Longrightarrow> outcome t (body x acc) I s"
  shows "outcome t (for_loop xs body acc) I s"
  using assms
proof (induction xs arbitrary: acc s)
  case Nil
  then show ?case by simp
next
  case (Cons x xs)
  have "outcome t (body x acc) I s"
    using Cons.prems by simp
  moreover have "\<And>acc' s'. I acc' s' \<Longrightarrow> outcome t (for_loop xs body acc') I s'"
    using Cons.IH Cons.prems(2) by simp
  ultimately show ?case
    by (simp add: outcome_mono)
qed

lemma outcome_for_loop_prefix:
  assumes "I pre acc s"
    and "\<And>p x q acc s. pre @ xs = p @ x # q \<Longrightarrow> length pre \<le> length p \<Longrightarrow> I p acc s
           \<Longrightarrow> outcome t (body x acc) (I (p @ [x])) s"
  shows "outcome t (for_loop xs body acc) (I (pre @ xs)) s"
  using assms
proof (induction xs arbitrary: pre acc s)
  case Nil
  then show ?case by simp
next
  case (Cons x xs)
  have step: "outcome t (body x acc) (I (pre @ [x])) s"
    using Cons.prems(1) Cons.prems(2) [of pre x xs acc s] by simp
  have rest: "outcome t (for_loop xs body acc') (I ((pre @ [x]) @ xs)) s'"
    if "I (pre @ [x]) acc' s'" for acc' s'
  proof (rule Cons.IH [OF that])
    fix p y q a u
    assume "(pre @ [x]) @ xs = p @ y # q" "length (pre @ [x]) \<le> length p" "I p a u"
    then show "outcome t (body y a) (I (p @ [y])) u"
      using Cons.prems(2) [of p y q a u] by simp
  qed
  from step show ?case
    by (simp, rule outcome_mono) (use rest in simp)
qed

lemma quiet_refl [simp]: "quiet s s"
  by (simp add: quiet_def steady_def)

lemma quiet_trans: "quiet s s' \<Longrightarrow> quiet s' s'' \<Longrightarrow> quiet s s''"
  by (simp add: quiet_def steady_def)

lemma quiet_draw: "quiet s (s\<lparr>rng_pos := Suc (rng_pos s)\<rparr>)"
  by (simp add: quiet_def steady_def)

lemma randint_value: "a \<le> b \<Longrightarrow> a \<le> a + int (d mod nat (b - a + 1)) \<and> a + int (d mod nat (b - a + 1)) \<le> b"
proof -
  assume "a \<le> b"
  then have "0 < nat (b - a + 1)" by simp
  then have "d mod nat (b - a + 1) < nat (b - a + 1)" by (rule mod_less_divisor)
  then show ?thesis using \<open>a \<le> b\<close> by linarith
qed

lemma outcome_randint:
  assumes "t \<longrightarrow> a \<le> b"
    and "\<And>v s'. a \<le> v \<Longrightarrow> v \<le> b \<Longrightarrow> quiet s s' \<Longrightarrow> Q v s'"
  shows "outcome t (randint a b) Q s"
proof (cases "a \<le> b")
  case True
  then show ?thesis
    using assms(2) [OF conjunct1 [OF randint_value] conjunct2 [OF randint_value] quiet_draw]
    by (simp add: randint_def)
next
  case False
  then show ?thesis using assms(1) by (simp add: randint_def)
qed

lemma outcome_random_choice:
  assumes "t \<longrightarrow> xs \<noteq> []"
    and "\<And>x s'. x \<in> set xs \<Longrightarrow> quiet s s' \<Longrightarrow> Q x s'"
  shows "outcome t (random_choice xs) Q s"
proof (cases xs)
  case Nil
  then show ?thesis using assms(1) by (simp add: random_choice_def)
next
  case (Cons y ys)
  then have "d mod length xs < length xs" for d
    by simp
  then have "xs ! (d mod length xs) \<in> set xs" for d
    by (rule nth_mem)
  then show ?thesis
    using assms(2) [OF _ quiet_draw] Cons by (simp add: random_choice_def)
qed

lemma outcome_random_random:
  assumes "\<And>r s'. 0 \<le> r \<Longrightarrow> r < 1 \<Longrightarrow> quiet s s' \<Longrightarrow> Q r s'"
  shows "outcome t random_random Q s"
proof -
  have "(0::rat) \<le> of_nat (d mod 2 ^ 53) / 2 ^ 53 \<and> (of_nat (d mod 2 ^ 53) / 2 ^ 53 :: rat) < 1" for d :: nat
  proof -
    have "d mod 2 ^ 53 < 2 ^ 53" by simp
    then have "(of_nat (d mod 2 ^ 53) :: rat) < of_nat (2 ^ 53)"
      by (simp only: of_nat_less_iff)
    then show ?thesis by simp
  qed
  then show ?thesis
    using assms [OF _ _ quiet_draw] by (simp add: random_random_def)
qed

lemma round_half_even_nonneg: "0 \<le> x \<Longrightarrow> 0 \<le> round_half_even x"
  by (auto simp: round_half_even_def Let_def intro: order_trans)

lemma outcome_generate_timestamp:
  assumes "\<And>s'. quiet s s' \<Longrightarrow> Q (current_time s' div 1000) s'"
  shows "outcome t generate_timestamp Q s"
  unfolding generate_timestamp_def
  apply (simp add: Let_def)
  apply (rule outcome_random_random)
  subgoal for r s'
    using assms [of "s'\<lparr>current_time := current_time s' + round_half_even (5000000 * r)\<rparr>"]
      round_half_even_nonneg [of "5000000 * r"]
    by (simp add: quiet_def steady_def)
  done

lemma outcome_randint_str:
  assumes "t \<longrightarrow> a \<le> b"
    and "\<And>v s'. quiet s s' \<Longrightarrow> Q v s'"
  shows "outcome t (randint_str a b) Q s"
  unfolding randint_str_def
  by (simp, rule outcome_randint) (use assms in simp_all)

lemma placeholders_quiet:
  assumes "p \<in> set placeholders" and "t \<longrightarrow> 10 \<le> num_nodes s"
  shows "outcome t (snd p n) (\<lambda>_. quiet s) s"
  using assms unfolding placeholders_def
  apply simp
  apply (elim disjE; (simp add: random_uniform_def)?;
         (intro outcome_randint_str outcome_randint outcome_random_choice outcome_random_random
            outcome_generate_timestamp)?; (auto simp: quiet_def steady_def)?)
  done

lemma outcome_fill_placeholder:
  assumes "p \<in> set placeholders" and "t \<longrightarrow> 10 \<le> num_nodes s" and "quiet s0 s"
  shows "outcome t (fill_placeholder n p message) (\<lambda>_. quiet s0) s"
  unfolding fill_placeholder_def
  using placeholders_quiet [OF assms(1,2), of n] assms(3)
  by (auto elim!: outcome_mono intro: quiet_trans)

lemma outcome_fill_template_placeholders:
  assumes "t \<longrightarrow> 10 \<le> num_nodes s"
    and "\<And>message s'. quiet s s' \<Longrightarrow> Q message s'"
  shows "outcome t (fill_template_placeholders template n) Q s"
proof -
  have "outcome t (for_loop placeholders (fill_placeholder n) template)
          (\<lambda>_ s'. quiet s s' \<and> (t \<longrightarrow> 10 \<le> num_nodes s')) s"
  proof (rule outcome_for_loop)
    show "quiet s s \<and> (t \<longrightarrow> 10 \<le> num_nodes s)"
      using assms(1) by simp
  next
    fix p message s1
    assume p: "p \<in> set placeholders" and "quiet s s1 \<and> (t \<longrightarrow> 10 \<le> num_nodes s1)"
    then have "outcome t (fill_placeholder n p message) (\<lambda>_. quiet s) s1"
      by (intro outcome_fill_placeholder) simp_all
    then show "outcome t (fill_placeholder n p message)
                 (\<lambda>_ s'. quiet s s' \<and> (t \<longrightarrow> 10 \<le> num_nodes s')) s1"
      by (rule outcome_mono) (use assms(1) in \<open>auto simp: quiet_def steady_def\<close>)
  qed
  then show ?thesis
    unfolding fill_template_placeholders_def
    by (rule outcome_mono) (use assms(2) in simp)
qed

lemma outcome_append_entry:
  assumes "\<And>e s'. quiet s s' \<Longrightarrow> log_node_id e = n \<Longrightarrow> log_component e = c \<Longrightarrow>
             log_severity e = sev \<Longrightarrow> log_message e = message \<Longrightarrow>
             log_timestamp e = current_time s' div 1000 \<Longrightarrow> Q (messages @ [e]) s'"
  shows "outcome t (append_entry n c sev message messages) Q s"
  unfolding append_entry_def
  by (simp, rule outcome_generate_timestamp, rule assms) (simp_all add: format_log_entry_def)

lemma outcome_fill_and_append:
  assumes "t \<longrightarrow> 10 \<le> num_nodes s"
    and "\<And>e s'. quiet s s' \<Longrightarrow> log_node_id e = n \<Longrightarrow> log_component e = c \<Longrightarrow>
             log_severity e = sev \<Longrightarrow> log_timestamp e = current_time s' div 1000 \<Longrightarrow>
             Q (messages @ [e]) s'"
  shows "outcome t (fill_and_append n c sev template messages) Q s"
  unfolding fill_and_append_def
  apply simp
  apply (rule outcome_fill_template_placeholders [OF assms(1)])
  apply (rule outcome_append_entry)
  apply (rule assms(2))
  apply (auto intro: quiet_trans)
  done

lemma stamped_Nil [simp]: "stamped s [] s'"
  by (simp add: stamped_def)

lemma stamped_single:
  "current_time s \<le> current_time s' \<Longrightarrow> log_timestamp e = current_time s' div 1000
     \<Longrightarrow> stamped s [e] s'"
  by (simp add: stamped_def zdiv_mono1)

lemma stamped_append:
  assumes "stamped s a s1" and "stamped s1 b s2"
    and "current_time s \<le> current_time s1" and "current_time s1 \<le> current_time s2"
  shows "stamped s (a @ b) s2"
proof -
  have d: "current_time s div 1000 \<le> current_time s1 div 1000"
     "current_time s1 div 1000 \<le> current_time s2 div 1000"
    using assms(3,4) by (simp_all add: zdiv_mono1)
  have "\<forall>x\<in>set a. \<forall>y\<in>set b. log_timestamp x \<le> log_timestamp y"
    using assms(1,2) by (fastforce simp: stamped_def list_all_iff)
  then show ?thesis
    using assms(1,2) d by (fastforce simp: stamped_def sorted_append list_all_iff)
qed

lemma stamped_widen:
  assumes "stamped s1 es s2" and "current_time s \<le> current_time s1"
    and "current_time s2 \<le> current_time s3"
  shows "stamped s es s3"
proof -
  have "current_time s div 1000 \<le> current_time s1 div 1000"
     "current_time s2 div 1000 \<le> current_time s3 div 1000"
    using assms(2,3) by (simp_all add: zdiv_mono1)
  then show ?thesis
    using assms(1) by (fastforce simp: stamped_def list_all_iff)
qed

lemma steady_refl [simp]: "steady s s"
  by (simp add: steady_def)

lemma steady_trans: "steady s s' \<Longrightarrow> steady s' s'' \<Longrightarrow> steady s s''"
  by (simp add: steady_def)

lemma nodes_done_Nil: "nodes_done st P [] acc s acc s"
  by (simp add: nodes_done_def)

lemma nodes_done_snoc:
  assumes "nodes_done st P p acc s acc1 s1" and "node_step st P x acc1 s1 acc2 s2"
  shows "nodes_done st P (p @ [x]) acc s acc2 s2"
proof -
  from assms(1) obtain es where es: "acc1 = acc @ es" "map log_node_id es = p" "list_all P es"
      "stamped s es s1"
    and s1: "steady s s1" "active_anomalies s1 = active_anomalies s"
      "node_status s1 = (\<lambda>i. if i \<in> set p then Some st else node_status s i)"
    by (auto simp: nodes_done_def)
  from assms(2) obtain e where e: "acc2 = acc1 @ [e]" "log_node_id e = x" "P e"
      "log_timestamp e = current_time s2 div 1000"
    and s2: "steady s1 s2" "active_anomalies s2 = active_anomalies s1"
      "node_status s2 = (node_status s1)(x \<mapsto> st)"
    by (auto simp: node_step_def)
  have "stamped s1 [e] s2"
    using e(4) s2(1) by (simp add: stamped_single steady_def)
  then have "stamped s (es @ [e]) s2"
    using es(4) s1(1) s2(1) by (auto intro!: stamped_append simp: steady_def)
  moreover have "node_status s2 = (\<lambda>i. if i \<in> set (p @ [x]) then Some st else node_status s i)"
    using s1(3) s2(3) by auto
  ultimately show ?thesis
    unfolding nodes_done_def
    using es e s1 s2 by (auto intro: steady_trans exI [of _ "es @ [e]"])
qed

lemma outcome_node_loop:
  assumes "\<And>n acc s1. n \<in> set nodes \<Longrightarrow> steady s s1 \<Longrightarrow>
             outcome t (body n acc) (node_step st P n acc s1) s1"
    and "\<And>acc' s'. nodes_done st P nodes acc s acc' s' \<Longrightarrow> Q acc' s'"
  shows "outcome t (for_loop nodes body acc) Q s"
proof -
  have "outcome t (for_loop nodes body acc)
          (\<lambda>acc' s'. nodes_done st P ([] @ nodes) acc s acc' s') s"
  proof (rule outcome_for_loop_prefix [where I = "\<lambda>p acc' s'. nodes_done st P p acc s acc' s'"])
    show "nodes_done st P [] acc s acc s"
      by (rule nodes_done_Nil)
  next
    fix p x q acc1 s1
    assume xs: "[] @ nodes = p @ x # q" and inv: "nodes_done st P p acc s acc1 s1"
    then have "x \<in> set nodes" by simp
    moreover have "steady s s1" using inv by (simp add: nodes_done_def)
    ultimately have "outcome t (body x acc1) (node_step st P x acc1 s1) s1"
      by (rule assms(1))
    then show "outcome t (body x acc1) (nodes_done st P (p @ [x]) acc s) s1"
      by (rule outcome_mono) (rule nodes_done_snoc [OF inv])
  qed
  then show ?thesis
    by (rule outcome_mono) (use assms(2) in simp)
qed

text \<open>The loop body shared by six loops: set the status, fill and append.\<close>

lemma outcome_status_event:
  assumes "t \<longrightarrow> 10 \<le> num_nodes s"
  shows "outcome t (bindM (set_node_status n st) (\<lambda>_. fill_and_append n c sev template acc))
           (node_step st (\<lambda>e. log_component e = c \<and> log_severity e = sev) n acc s) s"
  unfolding set_node_status_def
  apply simp
  apply (rule outcome_fill_and_append)
  using assms apply simp
  apply (auto simp: node_step_def quiet_def steady_def)
  done

lemma outcome_status_event_steady:
  assumes "t \<longrightarrow> 10 \<le> num_nodes s" and "steady s s1"
  shows "outcome t (bindM (set_node_status n st) (\<lambda>_. fill_and_append n c sev template acc))
           (node_step st (\<lambda>e. log_component e = c \<and> log_severity e = sev) n acc s1) s1"
  using assms by (intro outcome_status_event) (simp add: steady_def)

lemma create_network_partition_spec:
  assumes "t \<longrightarrow> 100 \<le> num_nodes s"
  shows "outcome t create_network_partition
           (\<lambda>(logs, affected) s'.
              (\<exists>start n. 0 \<le> start \<and> start \<le> num_nodes s - 100 \<and> 10 \<le> n \<and> n \<le> 100 \<and>
                 affected = py_range start (start + n)) \<and>
              map log_node_id logs = affected \<and>
              list_all (\<lambda>e. log_component e = NETWORK \<and> log_severity e = ERROR) logs \<and>
              onset network_partition NETWORK_DEGRADED s logs affected s') s"
  using assms unfolding create_network_partition_def
  apply (simp add: Let_def)
  apply (rule outcome_randint, simp)
  apply (rule outcome_randint, simp)
  apply (rule outcome_node_loop [where st = NETWORK_DEGRADED
        and P = "\<lambda>e. log_component e = NETWORK \<and> log_severity e = ERROR"])
   apply (rule outcome_status_event)
   apply (simp add: quiet_def steady_def)
  apply (auto simp: active_extend_def onset_def nodes_done_def quiet_def steady_def
               elim: stamped_widen)
  done

section \<open>Continuation without an active anomaly\<close>

lemma filter_all_empty:
  assumes "\<not> list_ex (\<lambda>(k, v). v \<noteq> []) d"
  shows "filter (\<lambda>(k, v). v \<noteq> []) d = []"
  using assms by (auto simp: filter_empty_conv list_ex_iff)

lemma continue_anomaly_idle:
  assumes "\<not> any_active s"
  shows "continue_anomaly s = Inr ([], s)"
  using filter_all_empty [OF assms [unfolded any_active_def]]
  by (simp add: continue_anomaly_def bindM_def getsM_def returnM_def Let_def)

text \<open>
  Claim C9. When no anomaly kind has a non-empty node list in the registry,
  \<^verbatim>\<open>_continue_anomaly\<close> returns the empty sequence and leaves the whole state as it was:
  node statuses, registry, clock, and the random generator too.
\<close>

theorem continue_anomaly_nothing_active:
  assumes "\<not> any_active s"
  shows "continue_anomaly s = Inr ([], s)"
  using assms by (rule continue_anomaly_idle)

theorem continue_anomaly_nothing_active_witness:
  "\<not> any_active cleared_simulator \<and>
   active_anomalies cleared_simulator = [(memory_errors, []), (overheating, [])] \<and>
   continue_anomaly cleared_simulator = Inr ([], cleared_simulator)"
proof -
  have a: "\<not> any_active cleared_simulator"
    by (simp add: any_active_def cleared_simulator_def BGLLogSimulator_def)
  have "active_anomalies cleared_simulator = [(memory_errors, []), (overheating, [])]"
    by (simp add: cleared_simulator_def)
  then show ?thesis
    using a continue_anomaly_nothing_active [OF a] by simp
qed

section \<open>Anomaly onset, branch by branch\<close>

lemma outcome_sample_from:
  assumes "k \<le> length pool"
    and "\<And>ys s'. set ys \<subseteq> set pool \<Longrightarrow> length ys = k \<Longrightarrow> (distinct pool \<longrightarrow> distinct ys)
           \<Longrightarrow> quiet s s' \<Longrightarrow> Q ys s'"
  shows "outcome t (sample_from pool k) Q s"
  using assms
proof (induction k arbitrary: pool s Q)
  case 0
  then show ?case by simp
next
  case (Suc k)
  let ?s1 = "s\<lparr>rng_pos := Suc (rng_pos s)\<rparr>"
  define j where "j = rng_draws s (rng_pos s) mod length pool"
  define rest where "rest = take j pool @ drop (Suc j) pool"
  have len: "0 < length pool" using Suc.prems(1) by auto
  then have j: "j < length pool" by (simp add: j_def)
  have pool: "pool = take j pool @ pool ! j # drop (Suc j) pool"
    using j by (simp add: id_take_nth_drop)
  have sub: "set rest \<subseteq> set pool"
    unfolding rest_def by (auto dest: in_set_takeD in_set_dropD)
  have lrest: "k \<le> length rest"
    using Suc.prems(1) j by (simp add: rest_def)
  have dist: "distinct rest \<and> pool ! j \<notin> set rest" if "distinct pool"
  proof -
    from that have "distinct (take j pool @ pool ! j # drop (Suc j) pool)"
      using pool by simp
    then show ?thesis by (auto simp: rest_def)
  qed
  have "outcome t (sample_from rest k) (\<lambda>ys. Q (pool ! j # ys)) ?s1"
  proof (rule Suc.IH [OF lrest])
    fix ys s'
    assume ys: "set ys \<subseteq> set rest" "length ys = k" "distinct rest \<longrightarrow> distinct ys"
      and q: "quiet ?s1 s'"
    have "quiet s s'"
      using q by (simp add: quiet_def steady_def)
    moreover have "set (pool ! j # ys) \<subseteq> set pool"
      using ys(1) sub j by auto
    moreover have "distinct pool \<longrightarrow> distinct (pool ! j # ys)"
      using dist ys(1,3) by auto
    ultimately show "Q (pool ! j # ys) s'"
      using ys(2) by (intro Suc.prems(2)) simp_all
  qed
  then show ?case
    by (simp add: Let_def j_def rest_def)
qed

lemma outcome_random_sample:
  assumes "t \<longrightarrow> 0 \<le> k \<and> k \<le> int (length population)"
    and "\<And>ys s'. set ys \<subseteq> set population \<Longrightarrow> int (length ys) = k \<Longrightarrow>
           (distinct population \<longrightarrow> distinct ys) \<Longrightarrow> quiet s s' \<Longrightarrow> Q ys s'"
  shows "outcome t (random_sample population k) Q s"
proof (cases "k < 0 \<or> int (length population) < k")
  case True
  then show ?thesis using assms(1) by (auto simp: random_sample_def)
next
  case False
  then have "nat k \<le> length population" by linarith
  then have "outcome t (sample_from population (nat k)) Q s"
    by (rule outcome_sample_from) (use False assms(2) in simp)
  then show ?thesis using False by (simp add: random_sample_def)
qed

lemma py_range_set [simp]: "set (py_range a b) = {a..<b}"
  by (auto simp: py_range_def)

lemma py_range_length [simp]: "length (py_range a b) = nat (b - a)"
  by (simp add: py_range_def)

lemma py_range_distinct [simp]: "distinct (py_range a b)"
  by (simp add: py_range_def)

lemma py_range_Cons: "a < b \<Longrightarrow> py_range a b = a # py_range (a + 1) b"
  by (simp add: py_range_def upto_rec1)

lemma outcome_first_item:
  assumes "t \<longrightarrow> xs \<noteq> []" and "\<And>x ys. xs = x # ys \<Longrightarrow> Q x s"
  shows "outcome t (first_item xs) Q s"
  using assms by (cases xs) (simp_all add: first_item_def)

lemma outcome_first_item_range:
  assumes "a < b" and "Q a s"
  shows "outcome t (first_item (py_range a b)) Q s"
  using assms by (simp add: py_range_Cons first_item_def)

lemma stamped_Cons:
  assumes "log_timestamp m = current_time s1 div 1000" and "stamped s1 es s2"
    and "current_time s \<le> current_time s1" and "current_time s1 \<le> current_time s2"
  shows "stamped s (m # es) s2"
  using stamped_append [OF stamped_single [OF assms(3,1)] assms(2,3,4)] by simp

lemma stamped_update [simp]:
  "stamped s es (s'\<lparr>active_anomalies := d\<rparr>) = stamped s es s'"
  "stamped s es (s'\<lparr>node_status := m\<rparr>) = stamped s es s'"
  "stamped (s\<lparr>active_anomalies := d\<rparr>) es s' = stamped s es s'"
  "stamped (s\<lparr>node_status := m\<rparr>) es s' = stamped s es s'"
  by (simp_all add: stamped_def)

lemma create_rack_power_failure_spec:
  assumes "t \<longrightarrow> 32 \<le> num_nodes s"
  shows "outcome t create_rack_power_failure
           (\<lambda>(logs, affected) s'.
              (\<exists>rack_id. 0 \<le> rack_id \<and> rack_id \<le> num_nodes s div 32 - 1 \<and>
                 affected = py_range (rack_id * 32) (rack_id * 32 + 32) \<and>
                 (\<exists>m es. logs = m # es \<and> log_node_id m = rack_id * 32 \<and>
                    log_component m = POWER \<and> log_severity m = FATAL \<and>
                    map log_node_id es = affected \<and>
                    list_all (\<lambda>e. log_component e = POWER \<and> log_severity e = ERROR) es)) \<and>
              onset rack_power_failure POWERED_OFF s logs affected s') s"
  using assms unfolding create_rack_power_failure_def
  apply (simp add: Let_def del: str_replace.simps)
  apply (rule outcome_randint)
  subgoal by (clarsimp, arith)
  apply (rule outcome_generate_timestamp)
  apply (rule outcome_first_item_range, simp)
  apply (rule outcome_node_loop [where st = POWERED_OFF
        and P = "\<lambda>e. log_component e = POWER \<and> log_severity e = ERROR"])
   apply (rule outcome_status_event)
  subgoal by (auto simp: quiet_def steady_def)
  apply (simp add: active_extend_def onset_def nodes_done_def del: str_replace.simps)
  apply (elim conjE exE)
  subgoal for rack s1 s2 acc' s3 es
    apply (intro conjI)
    subgoal by (rule exI [of _ rack]) (simp add: format_log_entry_def)
    subgoal by (simp add: quiet_def steady_def)
    subgoal by (clarsimp, rule stamped_Cons [of _ s2])
        (auto simp: format_log_entry_def quiet_def steady_def)
    subgoal by (auto simp: quiet_def steady_def)
    subgoal by (simp add: quiet_def)
    done
  done

lemma create_filesystem_corruption_spec:
  assumes "t \<longrightarrow> 20 \<le> num_nodes s"
  shows "outcome t create_filesystem_corruption
           (\<lambda>(logs, affected) s'.
              5 \<le> length affected \<and> length affected \<le> 20 \<and> distinct affected \<and>
              set affected \<subseteq> {0..<num_nodes s} \<and>
              map log_node_id logs = affected \<and>
              list_all (\<lambda>e. log_component e = FILESYSTEM \<and> log_severity e = ERROR) logs \<and>
              onset filesystem_corruption FILESYSTEM_ERROR s logs affected s') s"
  using assms unfolding create_filesystem_corruption_def
  apply (simp add: Let_def)
  apply (rule outcome_randint, simp)
  apply (rule outcome_random_sample)
  subgoal by (auto simp: quiet_def steady_def)
  apply (rule outcome_random_choice, simp)
  apply (rule outcome_node_loop [where st = FILESYSTEM_ERROR
        and P = "\<lambda>e. log_component e = FILESYSTEM \<and> log_severity e = ERROR"])
   apply (rule outcome_status_event)
  subgoal by (auto simp: quiet_def steady_def)
  apply (auto simp: active_extend_def onset_def nodes_done_def quiet_def steady_def
               elim: stamped_widen)
  done

lemma entries_done_snoc:
  assumes "entries_done P p acc s acc1 s1" and "entry_step P x acc1 s1 acc2 s2"
  shows "entries_done P (p @ [x]) acc s acc2 s2"
proof -
  from assms(1) obtain es where es: "acc1 = acc @ es" "list_all2 P p es" "stamped s es s1"
    and s1: "quiet s s1"
    by (auto simp: entries_done_def)
  from assms(2) obtain e where e: "acc2 = acc1 @ [e]" "P x e"
      "log_timestamp e = current_time s2 div 1000"
    and s2: "quiet s1 s2"
    by (auto simp: entry_step_def)
  have "stamped s1 [e] s2"
    using e(3) s2 by (simp add: stamped_single quiet_def steady_def)
  then have "stamped s (es @ [e]) s2"
    using es(3) s1 s2 by (auto intro!: stamped_append simp: quiet_def steady_def)
  moreover have "list_all2 P (p @ [x]) (es @ [e])"
    using es(2) e(2) by (simp add: list_all2_appendI)
  ultimately show ?thesis
    unfolding entries_done_def
    using es(1) e(1) quiet_trans [OF s1 s2] by (auto intro: exI [of _ "es @ [e]"])
qed

lemma outcome_entry_loop:
  assumes "\<And>x acc s1. x \<in> set xs \<Longrightarrow> quiet s s1 \<Longrightarrow>
             outcome t (body x acc) (entry_step P x acc s1) s1"
    and "\<And>acc' s'. entries_done P xs acc s acc' s' \<Longrightarrow> Q acc' s'"
  shows "outcome t (for_loop xs body acc) Q s"
proof -
  have "outcome t (for_loop xs body acc) (\<lambda>acc' s'. entries_done P ([] @ xs) acc s acc' s') s"
  proof (rule outcome_for_loop_prefix [where I = "\<lambda>p acc' s'. entries_done P p acc s acc' s'"])
    show "entries_done P [] acc s acc s"
      by (simp add: entries_done_def)
  next
    fix p x q acc1 s1
    assume xs: "[] @ xs = p @ x # q" and inv: "entries_done P p acc s acc1 s1"
    then have "x \<in> set xs" by simp
    moreover have "quiet s s1" using inv by (simp add: entries_done_def)
    ultimately have "outcome t (body x acc1) (entry_step P x acc1 s1) s1"
      by (rule assms(1))
    then show "outcome t (body x acc1) (entries_done P (p @ [x]) acc s) s1"
      by (rule outcome_mono) (rule entries_done_snoc [OF inv])
  qed
  then show ?thesis
    by (rule outcome_mono) (use assms(2) in simp)
qed

lemma outcome_memory_cascade_step:
  assumes "t \<longrightarrow> 10 \<le> num_nodes s"
  shows "outcome t (memory_cascade_step n error_count i acc)
           (entry_step (\<lambda>i e. log_node_id e = n \<and> log_component e = MEMORY \<and>
                          log_severity e = cascade_severity error_count i) i acc s) s"
  using assms unfolding memory_cascade_step_def
  by (auto intro!: outcome_fill_and_append outcome_randint_str
        simp: entry_step_def cascade_severity_def quiet_def steady_def
        simp del: str_replace.simps)

lemma create_memory_errors_spec:
  assumes "t \<longrightarrow> 10 \<le> num_nodes s"
  shows "outcome t create_memory_errors
           (\<lambda>(logs, affected) s'.
              (\<exists>node error_count. 0 \<le> node \<and> node \<le> num_nodes s - 1 \<and> affected = [node] \<and>
                 3 \<le> error_count \<and> error_count \<le> 10 \<and>
                 list_all2 (\<lambda>i e. log_node_id e = node \<and> log_component e = MEMORY \<and>
                              log_severity e = cascade_severity error_count i)
                   (py_range 0 error_count) logs) \<and>
              onset memory_errors MEMORY_ERROR s logs affected s') s"
  using assms unfolding create_memory_errors_def
  apply (simp add: Let_def set_node_status_def)
  apply (rule outcome_randint)
  subgoal by auto
  apply (rule outcome_randint, simp)
  apply (rule outcome_entry_loop [where P = "\<lambda>i e. log_node_id e = n \<and> log_component e = MEMORY \<and>
                          log_severity e = cascade_severity ec i" for n ec])
   apply (rule outcome_memory_cascade_step)
  subgoal by (auto simp: quiet_def steady_def)
  apply (auto simp: active_extend_def onset_def entries_done_def quiet_def steady_def
               elim: stamped_widen)
  done

lemma outcome_overheating_step:
  assumes "t \<longrightarrow> 10 \<le> num_nodes s"
  shows "outcome t (overheating_step n acc)
           (node_step OVERHEATING
              (\<lambda>e. log_component e = TEMPERATURE \<and>
                   log_severity e \<in> {FATAL, ERROR, WARNING}) n acc s) s"
  using assms unfolding overheating_step_def set_node_status_def
  by (auto intro!: outcome_fill_and_append outcome_randint
        simp: node_step_def quiet_def steady_def Let_def
        simp del: str_replace.simps)

lemma create_overheating_spec:
  assumes "t \<longrightarrow> 32 \<le> num_nodes s"
  shows "outcome t create_overheating
           (\<lambda>(logs, affected) s'.
              (\<exists>start n. 0 \<le> start \<and> start \<le> num_nodes s - 32 \<and> 5 \<le> n \<and> n \<le> 32 \<and>
                 affected = py_range start (start + n)) \<and>
              map log_node_id logs = affected \<and>
              list_all (\<lambda>e. log_component e = TEMPERATURE \<and>
                            log_severity e \<in> {FATAL, ERROR, WARNING}) logs \<and>
              onset overheating OVERHEATING s logs affected s') s"
  using assms unfolding create_overheating_def
  apply (simp add: Let_def)
  apply (rule outcome_randint)
  subgoal by auto
  apply (rule outcome_randint, simp)
  apply (rule outcome_node_loop [where st = OVERHEATING
        and P = "\<lambda>e. log_component e = TEMPERATURE \<and> log_severity e \<in> {FATAL, ERROR, WARNING}"])
   apply (rule outcome_overheating_step)
  subgoal by (auto simp: quiet_def steady_def)
  apply (auto simp: active_extend_def onset_def nodes_done_def quiet_def steady_def
               elim: stamped_widen)
  done

section \<open>The severity model returns\<close>

lemma accumulate_last:
  "ws \<noteq> [] \<Longrightarrow> \<exists>pre. rev (accumulate a ws) = (a + sum_list ws) # pre"
proof (induction ws arbitrary: a)
  case Nil
  then show ?case by simp
next
  case (Cons w ws)
  show ?case
  proof (cases ws)
    case Nil
    then show ?thesis by simp
  next
    case (Cons v vs)
    then have "ws \<noteq> []" by simp
    from Cons.IH [OF this, of "a + w"] obtain pre
      where "rev (accumulate (a + w) ws) = (a + w + sum_list ws) # pre" by blast
    then show ?thesis by (simp add: add.assoc)
  qed
qed

lemma outcome_random_choices:
  assumes "t \<longrightarrow> weights \<noteq> [] \<and> 0 < sum_list weights"
    and "\<And>x s'. quiet s s' \<Longrightarrow> Q x s'"
  shows "outcome t (random_choices population weights) Q s"
proof (cases "weights = []")
  case True
  then show ?thesis using assms(1) by (simp add: random_choices_def)
next
  case False
  from accumulate_last [OF this, of 0] obtain pre
    where "rev (accumulate 0 weights) = sum_list weights # pre" by auto
  then show ?thesis
    using assms(1)
    by (auto simp: random_choices_def Let_def intro!: outcome_random_random assms(2))
qed

lemma positive_weights_scale:
  "positive_weights w \<Longrightarrow> 0 < f \<Longrightarrow> positive_weights (scale_weight k f w)"
  by (auto simp: positive_weights_def scale_weight_def list_all_iff split: if_splits)

lemma positive_weights_sum: "positive_weights w \<Longrightarrow> 0 < sum_list (map snd w)"
proof (induction w)
  case Nil
  then show ?case by (simp add: positive_weights_def)
next
  case (Cons p w)
  then show ?case
    by (cases w) (auto simp: positive_weights_def intro: add_pos_pos)
qed

lemma sum_list_normalized:
  "sum_list (map (\<lambda>(k, v). v / c) w) = sum_list (map snd w) / (c :: rat)"
  by (induction w) (auto simp: add_divide_distrib)

lemma positive_weights_normalized:
  assumes "positive_weights w"
  shows "map (\<lambda>(k, v). v / sum_list (map snd w)) w \<noteq> [] \<and>
         0 < sum_list (map (\<lambda>(k, v). v / sum_list (map snd w)) w)"
  using positive_weights_sum [OF assms] assms
  by (simp add: sum_list_normalized positive_weights_def)

lemma positive_weights_base:
  "positive_weights severity_levels"
  "positive_weights [(INFO, 2 / 10), (WARNING, 3 / 10), (ERROR, 4 / 10), (FATAL, 1 / 10)]"
  by (simp_all add: positive_weights_def severity_levels_def)

lemma outcome_normalized_choice:
  assumes "positive_weights w" and "\<And>x s'. quiet s s' \<Longrightarrow> Q x s'"
  shows "outcome t (if sum_list (map snd w) = 0 then raiseM ZeroDivisionError
                    else random_choices (map fst w)
                           (map (\<lambda>(k, v). v / sum_list (map snd w)) w)) Q s"
  using positive_weights_sum [OF assms(1)] positive_weights_normalized [OF assms(1)]
  by (auto intro!: outcome_random_choices assms(2))

lemma outcome_node_failing:
  assumes "t \<longrightarrow> (case node_id of None \<Rightarrow> True | Some n \<Rightarrow> node_status s n \<noteq> None)"
    and "\<And>failing. Q failing s"
  shows "outcome t (case node_id of
              None \<Rightarrow> returnM False
            | Some n \<Rightarrow>
                bindM (getsM node_status) (\<lambda>st.
                  case st n of
                    None \<Rightarrow> raiseM KeyError
                  | Some v \<Rightarrow> returnM (v \<noteq> OPERATIONAL))) Q s"
  using assms by (auto split: option.splits)

lemma outcome_base_weights:
  assumes "\<And>w s'. positive_weights w \<Longrightarrow> quiet s s' \<Longrightarrow> Q w s'"
  shows "outcome t (if failing
            then returnM [(INFO, 2 / 10), (WARNING, 3 / 10), (ERROR, 4 / 10), (FATAL, 1 / 10)]
            else bindM random_random (\<lambda>r.
                 bindM (getsM error_rate) (\<lambda>rate.
                 returnM
                   (if r < rate
                    then scale_weight FATAL (6 / 5)
                           (scale_weight ERROR (6 / 5)
                             (scale_weight WARNING (6 / 5) severity_levels))
                    else scale_weight INFO (6 / 5) severity_levels)))) Q s"
proof (cases failing)
  case True
  then show ?thesis
    using assms [OF positive_weights_base(2) quiet_refl] by simp
next
  case False
  have "positive_weights (if c
                    then scale_weight FATAL (6 / 5)
                           (scale_weight ERROR (6 / 5)
                             (scale_weight WARNING (6 / 5) severity_levels))
                    else scale_weight INFO (6 / 5) severity_levels)" for c
    by (simp add: positive_weights_scale positive_weights_base)
  then show ?thesis
    using False by (simp only: if_False outcome_bind outcome_gets outcome_return)
      (rule outcome_random_random, rule assms)
qed

lemma outcome_adjusted_choice:
  assumes "positive_weights w1" and "\<And>x s'. quiet s s' \<Longrightarrow> Q x s'"
  shows "outcome t
      (let w2 = (if component \<in> set [Some MEMORY, Some PROCESSOR, Some POWER]
               then scale_weight FATAL (11 / 10) (scale_weight ERROR (6 / 5) w1)
               else w1);
         w3 = (if component \<in> set [Some SCHEDULER, Some FILESYSTEM, Some NETWORK]
               then scale_weight INFO (6 / 5) w2
               else w2);
         total_weight = sum_list (map snd w3)
     in if total_weight = 0 then raiseM ZeroDivisionError
        else random_choices (map fst w3) (map (\<lambda>(k, v). v / total_weight) w3)) Q s"
proof -
  define w2 where "w2 = (if component \<in> set [Some MEMORY, Some PROCESSOR, Some POWER]
               then scale_weight FATAL (11 / 10) (scale_weight ERROR (6 / 5) w1)
               else w1)"
  define w3 where "w3 = (if component \<in> set [Some SCHEDULER, Some FILESYSTEM, Some NETWORK]
               then scale_weight INFO (6 / 5) w2
               else w2)"
  have "positive_weights w2"
    unfolding w2_def using assms(1) by (simp add: positive_weights_scale)
  then have "positive_weights w3"
    unfolding w3_def by (simp add: positive_weights_scale)
  then have "outcome t (if sum_list (map snd w3) = 0 then raiseM ZeroDivisionError
                  else random_choices (map fst w3)
                         (map (\<lambda>(k, v). v / sum_list (map snd w3)) w3)) Q s"
    by (rule outcome_normalized_choice) (rule assms(2))
  then show ?thesis
    unfolding Let_def w3_def w2_def .
qed

lemma outcome_get_severity:
  assumes "t \<longrightarrow> (case node_id of None \<Rightarrow> True | Some n \<Rightarrow> node_status s n \<noteq> None)"
    and "\<And>x s'. quiet s s' \<Longrightarrow> Q x s'"
  shows "outcome t (get_severity component node_id) Q s"
  unfolding get_severity_def
  apply (simp only: outcome_bind)
  apply (rule outcome_node_failing [OF assms(1)])
  apply (rule outcome_base_weights)
  apply (rule outcome_adjusted_choice, assumption)
  apply (rule assms(2))
  apply (erule (1) quiet_trans)
  done

section \<open>Resolution\<close>

lemma nodes_done_resolution:
  assumes "nodes_done OPERATIONAL (\<lambda>e. log_component e = kind_component k \<and> log_severity e = INFO)
             nodes [] s acc s1"
    and "k \<noteq> memory_errors" and "k \<noteq> rack_power_failure"
  shows "resolution k nodes s acc (s1\<lparr>active_anomalies := AList.update k [] (active_anomalies s1)\<rparr>)"
  using assms
  by (auto simp: nodes_done_def resolution_def resolved_nodes_def steady_def list_all_iff)

lemma resolve_loop:
  assumes "t \<longrightarrow> 10 \<le> num_nodes s"
    and "k \<noteq> memory_errors" and "k \<noteq> rack_power_failure" and "c = kind_component k"
  shows "outcome t
          (bindM (for_loop nodes (\<lambda>node_id messages.
                   bindM (set_node_status node_id OPERATIONAL) (\<lambda>_.
                   fill_and_append node_id c INFO template messages)) [])
            (\<lambda>messages.
          bindM (active_clear k) (\<lambda>_. returnM messages)))
          (resolution k nodes s) s"
  using assms(1)
  apply (simp add: active_clear_def del: str_replace.simps)
  apply (rule outcome_node_loop [where st = OPERATIONAL
        and P = "\<lambda>e. log_component e = kind_component k \<and> log_severity e = INFO"])
   apply (simp only: assms(4))
   apply (rule outcome_status_event)
  subgoal by (auto simp: steady_def)
  apply (rule nodes_done_resolution [OF _ assms(2,3)])
  apply assumption
  done

lemma outcome_first_item_hd:
  assumes "t \<longrightarrow> xs \<noteq> []" and "xs \<noteq> [] \<Longrightarrow> Q (hd xs) s"
  shows "outcome t (first_item xs) Q s"
  using assms by (cases xs) (simp_all add: first_item_def)

lemma outcome_resolve_overheating_step:
  assumes "t \<longrightarrow> 10 \<le> num_nodes s"
  shows "outcome t
           (bindM (set_node_status n OPERATIONAL) (\<lambda>_.
            bindM (randint_str 45 65) (\<lambda>v.
            fill_and_append n TEMPERATURE INFO (template v) acc)))
           (node_step OPERATIONAL
              (\<lambda>e. log_component e = kind_component overheating \<and> log_severity e = INFO)
              n acc s) s"
  using assms unfolding set_node_status_def
  by (auto intro!: outcome_fill_and_append outcome_randint_str
        simp: node_step_def quiet_def steady_def kind_component_def)

lemma resolve_anomaly_spec:
  assumes "t \<longrightarrow> 10 \<le> num_nodes s \<and> nodes \<noteq> []"
  shows "outcome t (resolve_anomaly k nodes) (resolution k nodes s) s"
proof (cases k)
  case network_partition
  then show ?thesis
    unfolding resolve_anomaly_def using assms
    by (simp only: anomaly_kind.case) (rule resolve_loop, simp_all add: kind_component_def)
next
  case filesystem_corruption
  then show ?thesis
    unfolding resolve_anomaly_def using assms
    by (simp only: anomaly_kind.case) (rule resolve_loop, simp_all add: kind_component_def)
next
  case overheating
  have "outcome t
          (bindM (for_loop nodes (\<lambda>node_id messages.
                   bindM (set_node_status node_id OPERATIONAL) (\<lambda>_.
                   bindM (randint_str 45 65) (\<lambda>v.
                   fill_and_append node_id TEMPERATURE INFO
                     (str_replace ''{temp}'' v
                        (''Temperature normalized at {temp}'' @ deg
                           @ ''C on node {node_id}, resuming normal operation''))
                     messages))) []) (\<lambda>messages.
          bindM (active_clear overheating) (\<lambda>_. returnM messages)))
          (resolution overheating nodes s) s"
    using assms
    apply (simp add: active_clear_def del: str_replace.simps)
    apply (rule outcome_node_loop [where st = OPERATIONAL
          and P = "\<lambda>e. log_component e = kind_component overheating \<and> log_severity e = INFO"])
     apply (rule outcome_resolve_overheating_step)
    subgoal by (auto simp: steady_def)
    apply (rule nodes_done_resolution)
      apply simp_all
    done
  then show ?thesis
    unfolding resolve_anomaly_def overheating by (simp only: anomaly_kind.case)
next
  case memory_errors
  show ?thesis
    unfolding resolve_anomaly_def memory_errors using assms
    apply (simp add: set_node_status_def active_clear_def del: str_replace.simps)
    apply (rule outcome_first_item_hd, simp)
    apply (simp del: str_replace.simps)
    apply (rule outcome_fill_and_append)
    subgoal by simp
    apply (cases nodes)
     apply (auto simp: resolution_def resolved_nodes_def kind_component_def quiet_def
        steady_def stamped_single fun_eq_iff)
    done
next
  case rack_power_failure
  show ?thesis
    unfolding resolve_anomaly_def rack_power_failure using assms
    apply (simp add: active_clear_def Let_def del: str_replace.simps)
    apply (rule outcome_first_item_hd, simp)
    apply (rule outcome_append_entry)
    apply (rule outcome_node_loop [where st = OPERATIONAL
          and P = "\<lambda>e. log_component e = POWER \<and> log_severity e = INFO"])
     apply (rule outcome_status_event)
    subgoal by (auto simp: quiet_def steady_def)
    apply (simp add: resolution_def nodes_done_def resolved_nodes_def kind_component_def)
    apply (elim conjE exE)
    apply (intro conjI)
    subgoal for e s1 acc' s2 es
      by (rule exI [of _ "[e]"], rule exI [of _ es]) (cases nodes; simp)
    subgoal by (auto simp: list_all_iff)
    subgoal for e s1 acc' s2 es
      using stamped_Cons [of e s1 es s2 s] by (auto simp: quiet_def steady_def)
    subgoal by (auto simp: quiet_def steady_def)
    subgoal by (auto simp: quiet_def)
    subgoal by (simp add: quiet_def)
    done
qed

section \<open>Continuation\<close>

lemma ongoing_template_spec:
  "outcome t (ongoing_template k n)
     (\<lambda>(c, sev, template) s'. c = kind_component k \<and> sev = ERROR \<and> quiet s s') s"
  unfolding ongoing_template_def
  by (cases k)
    (auto intro!: outcome_random_choice outcome_randint_str outcome_randint
       simp: kind_component_def Let_def quiet_def steady_def
       simp del: str_replace.simps)

lemma outcome_ongoing_template:
  assumes "\<And>template s'. quiet s s' \<Longrightarrow> Q (kind_component k, ERROR, template) s'"
  shows "outcome t (ongoing_template k n) Q s"
  by (rule outcome_mono [OF ongoing_template_spec]) (use assms in auto)

text \<open>What a follow-up event leaves when the key is in the registry with a non-empty list,
  and in general.\<close>

lemma ongoing_anomaly_spec:
  assumes "t \<longrightarrow> 10 \<le> num_nodes s"
  shows "outcome t (ongoing_anomaly k)
           (\<lambda>logs s'. stamped s logs s' \<and> steady s s' \<and>
              (\<forall>nodes. map_of (active_anomalies s) k = Some nodes \<longrightarrow> nodes \<noteq> [] \<longrightarrow>
                 continuation k nodes s logs s')) s"
proof (cases "map_of (active_anomalies s) k")
  case None
  then show ?thesis
    by (simp add: ongoing_anomaly_def active_getitem_def steady_def)
next
  case (Some nodes)
  show ?thesis
  proof (cases "nodes = []")
    case True
    then show ?thesis
      using Some by (simp add: ongoing_anomaly_def active_getitem_def)
  next
    case False
    then show ?thesis
      using Some assms unfolding ongoing_anomaly_def active_getitem_def
      apply (simp del: str_replace.simps)
      apply (rule outcome_random_choice, simp)
      apply (rule outcome_ongoing_template)
      apply (simp del: str_replace.simps)
      apply (rule outcome_fill_and_append)
      subgoal by (auto simp: quiet_def steady_def)
      apply (auto simp: continuation_def quiet_def steady_def stamped_single)
      done
  qed
qed

lemma resolution_after_quiet:
  assumes "quiet s s1" and "resolution k nodes s1 logs s'"
  shows "resolution k nodes s logs s'"
  using assms
  by (auto simp: resolution_def quiet_def steady_def elim: stamped_widen)

lemma continuation_after_quiet:
  assumes "quiet s s1" and "continuation k nodes s1 logs s'"
  shows "continuation k nodes s logs s'"
  using assms by (auto simp: continuation_def intro: quiet_trans)

lemma resolution_stamped: "resolution k nodes s logs s' \<Longrightarrow> stamped s logs s' \<and> steady s s'"
  by (simp add: resolution_def)

lemma map_of_filter_Some:
  assumes "map_of (filter P d) k = Some v"
  shows "P (k, v) \<and> (distinct (map fst d) \<longrightarrow> map_of d k = Some v)"
proof -
  from assms have "(k, v) \<in> set (filter P d)"
    by (rule map_of_SomeD)
  then show ?thesis
    by (auto intro: map_of_is_SomeI)
qed

lemma any_active_iff_filter:
  "any_active s \<longleftrightarrow> filter (\<lambda>(k, v). v \<noteq> []) (active_anomalies s) \<noteq> []"
  by (auto simp: any_active_def list_ex_iff filter_empty_conv)

lemma continue_anomaly_spec:
  assumes "t \<longrightarrow> 10 \<le> num_nodes s"
  shows "outcome t continue_anomaly (continued s) s"
proof (cases "any_active s")
  case False
  then have "continue_anomaly s = Inr ([], s)"
    by (rule continue_anomaly_idle)
  then show ?thesis
    using False by (simp add: outcome_def continued_def)
next
  case True
  define d where "d = active_anomalies s"
  define active where "active = filter (\<lambda>(k, v). v \<noteq> []) d"
  have active: "active \<noteq> []" and d: "d \<noteq> []"
    using True by (auto simp: any_active_iff_filter active_def d_def)
  have chosen: "outcome t
      (bindM (case map_of active k of None \<Rightarrow> raiseM KeyError | Some v \<Rightarrow> returnM v)
         (\<lambda>affected_nodes.
         bindM random_random (\<lambda>r.
         if r < 1 / 10 then resolve_anomaly k affected_nodes
         else ongoing_anomaly k))) (continued s) s1"
    if k: "k \<in> set (map fst active)" and q1: "quiet s s1" for k s1
  proof -
    from k obtain nodes where nodes: "map_of active k = Some nodes"
      by (metis map_of_eq_None_iff not_None_eq set_map)
    from map_of_filter_Some [OF nodes [unfolded active_def]]
    have ne: "nodes \<noteq> []"
      and reg: "distinct (map fst d) \<Longrightarrow> map_of d k = Some nodes"
      by auto
    have "outcome t (if r < 1 / 10 then resolve_anomaly k nodes else ongoing_anomaly k)
            (continued s) s2"
      if q2: "quiet s1 s2" for r :: rat and s2
    proof -
      have q: "quiet s s2" by (rule quiet_trans [OF q1 q2])
      have n: "t \<longrightarrow> 10 \<le> num_nodes s2 \<and> nodes \<noteq> []"
        using assms q ne by (simp add: quiet_def steady_def)
      have same: "active_anomalies s2 = d"
        using q by (simp add: quiet_def d_def)
      show ?thesis
      proof (cases "r < 1 / 10")
        case True
        have "outcome t (resolve_anomaly k nodes) (continued s) s2"
        proof (rule outcome_mono [OF resolve_anomaly_spec [OF n]])
          fix logs s'
          assume "resolution k nodes s2 logs s'"
          then have r: "resolution k nodes s logs s'"
            by (rule resolution_after_quiet [OF q])
          then show "continued s logs s'"
            unfolding continued_def
            using resolution_stamped [OF r] ne reg by (auto simp: d_def)
        qed
        then show ?thesis using True by simp
      next
        case False
        have "outcome t (ongoing_anomaly k) (continued s) s2"
        proof (rule outcome_mono [OF ongoing_anomaly_spec])
          show "t \<longrightarrow> 10 \<le> num_nodes s2" using n by simp
        next
          fix logs s'
          assume o: "stamped s2 logs s' \<and> steady s2 s' \<and>
            (\<forall>nodes. map_of (active_anomalies s2) k = Some nodes \<longrightarrow> nodes \<noteq> [] \<longrightarrow>
               continuation k nodes s2 logs s')"
          then have "stamped s logs s'" "steady s s'"
            using q by (auto simp: quiet_def steady_def elim: stamped_widen)
          moreover have "continuation k nodes s logs s'" if "distinct (map fst d)"
            using o reg [OF that] ne same continuation_after_quiet [OF q] by auto
          ultimately show "continued s logs s'"
            unfolding continued_def using ne reg by (auto simp: d_def)
        qed
        then show ?thesis using False by simp
      qed
    qed
    then show ?thesis
      using nodes by (simp add: outcome_random_random)
  qed
  have "outcome t (random_choice (map fst active))
          (\<lambda>k s1. outcome t
      (bindM (case map_of active k of None \<Rightarrow> raiseM KeyError | Some v \<Rightarrow> returnM v)
         (\<lambda>affected_nodes.
         bindM random_random (\<lambda>r.
         if r < 1 / 10 then resolve_anomaly k affected_nodes
         else ongoing_anomaly k))) (continued s) s1) s"
    by (rule outcome_random_choice) (use active chosen in auto)
  then show ?thesis
    unfolding continue_anomaly_def
    using active d by (simp add: Let_def d_def [symmetric] active_def [symmetric])
qed

section \<open>The invariant of the generation loop\<close>

lemma any_active_map_of:
  assumes "distinct (map fst (active_anomalies s))"
  shows "any_active s \<longleftrightarrow>
           (\<exists>k nodes. map_of (active_anomalies s) k = Some nodes \<and> nodes \<noteq> [])"
  using assms by (auto simp: any_active_def list_ex_iff dest: map_of_SomeD)

lemma consistent_quiet:
  assumes "quiet s s'" and "consistent s"
  shows "consistent s'"
proof -
  have "node_status s' = node_status s" "active_anomalies s' = active_anomalies s"
    "num_nodes s' = num_nodes s"
    using assms(1) by (simp_all add: quiet_def steady_def)
  then show ?thesis
    using assms(2) unfolding consistent_def by (simp only:) blast
qed

lemma consistent_fresh: "consistent (BGLLogSimulator n c e p now draws)"
  by (simp add: consistent_def BGLLogSimulator_def)

lemma dict_get_idle:
  assumes "distinct (map fst d)" and "\<not> list_ex (\<lambda>(k, v). v \<noteq> []) d"
  shows "dict_get k d = []"
  using assms by (auto simp: dict_get_def list_ex_iff split: option.splits dest: map_of_SomeD)

lemma consistent_onset:
  assumes c: "consistent s" and idle: "\<not> any_active s" and o: "onset_of k s logs affected s'"
  shows "consistent s'"
proof -
  let ?d = "active_anomalies s"
  have dist: "distinct (map fst ?d)" using c by (simp add: consistent_def)
  have empty: "\<forall>k' nodes. map_of ?d k' = Some nodes \<longrightarrow> nodes = []"
    using idle any_active_map_of [OF dist] by auto
  have operational: "\<forall>n st. node_status s n = Some st \<longrightarrow> st = OPERATIONAL"
  proof (intro allI impI, rule ccontr)
    fix n st
    assume "node_status s n = Some st" "st \<noteq> OPERATIONAL"
    with c obtain k' nodes where kn: "map_of ?d k' = Some nodes" "n \<in> set nodes"
      unfolding consistent_def by blast
    then show False using empty by fastforce
  qed
  from o have aff: "set affected \<subseteq> {0..<num_nodes s}" "k = memory_errors \<longrightarrow> length affected = 1"
    and st: "node_status s' = (\<lambda>i. if i \<in> set affected then Some (degraded_status k)
                                else node_status s i)"
    and reg: "active_anomalies s' = AList.update k (dict_get k ?d @ affected) ?d"
    and n: "num_nodes s' = num_nodes s"
    by (auto simp: onset_of_def onset_def steady_def)
  have "dict_get k ?d = []"
    using dist idle by (intro dict_get_idle) (simp_all add: any_active_def)
  then have reg': "active_anomalies s' = AList.update k affected ?d"
    using reg by simp
  have look: "map_of (active_anomalies s') k' = Some nodes \<longleftrightarrow>
                (if k' = k then nodes = affected else map_of ?d k' = Some nodes)" for k' nodes
    by (auto simp: reg' update_conv')
  show ?thesis
    unfolding consistent_def
  proof (intro conjI allI impI)
    show "distinct (map fst (active_anomalies s'))"
      using dist by (simp add: reg' distinct_update)
  next
    fix k1 n1 k2 n2
    assume "map_of (active_anomalies s') k1 = Some n1 \<and> n1 \<noteq> [] \<and>
            map_of (active_anomalies s') k2 = Some n2 \<and> n2 \<noteq> []"
    then show "k1 = k2"
      using empty by (fastforce simp: look split: if_splits)
  next
    fix k' nodes n
    assume a: "map_of (active_anomalies s') k' = Some nodes \<and> n \<in> set nodes"
    then have "k' = k \<and> nodes = affected"
      using empty by (fastforce simp: look split: if_splits)
    then show "0 \<le> n" "n < num_nodes s'" "node_status s' n = Some (degraded_status k')"
      using a aff st n by auto
  next
    fix nodes
    assume "map_of (active_anomalies s') memory_errors = Some nodes"
    then show "length nodes \<le> 1"
      using empty aff(2) by (fastforce simp: look split: if_splits)
  next
    fix n st'
    assume a: "node_status s' n = Some st' \<and> st' \<noteq> OPERATIONAL"
    then have "n \<in> set affected"
      using operational by (fastforce simp: st split: if_splits)
    then show "\<exists>k' nodes. map_of (active_anomalies s') k' = Some nodes \<and> n \<in> set nodes"
      by (auto simp: look intro: exI [of _ k])
  next
    fix n
    assume "0 \<le> n \<and> n < num_nodes s'"
    then show "node_status s' n \<noteq> None"
      using c n by (auto simp: st consistent_def)
  qed
qed

lemma consistent_resolution:
  assumes c: "consistent s" and live: "map_of (active_anomalies s) k = Some nodes" "nodes \<noteq> []"
    and r: "resolution k nodes s logs s'"
  shows "consistent s' \<and> \<not> any_active s'"
proof -
  let ?d = "active_anomalies s"
  have dist: "distinct (map fst ?d)" using c by (simp add: consistent_def)
  have only: "\<forall>k' nodes'. map_of ?d k' = Some nodes' \<longrightarrow> k' \<noteq> k \<longrightarrow> nodes' = []"
    using c live unfolding consistent_def by blast
  have res: "resolved_nodes k nodes = nodes"
  proof (cases "k = memory_errors")
    case True
    then have "length nodes \<le> 1" using c live(1) by (simp add: consistent_def)
    then show ?thesis by (simp add: resolved_nodes_def)
  next
    case False
    then show ?thesis by (simp add: resolved_nodes_def)
  qed
  from r have st: "node_status s' = (\<lambda>i. if i \<in> set nodes then Some OPERATIONAL
                                else node_status s i)"
    and reg: "active_anomalies s' = AList.update k [] ?d"
    and n: "num_nodes s' = num_nodes s"
    by (auto simp: resolution_def res steady_def)
  have look: "map_of (active_anomalies s') k' = Some nodes' \<longleftrightarrow>
                (if k' = k then nodes' = [] else map_of ?d k' = Some nodes')" for k' nodes'
    by (auto simp: reg update_conv')
  have empty: "\<forall>k' nodes'. map_of (active_anomalies s') k' = Some nodes' \<longrightarrow> nodes' = []"
    using only by (fastforce simp: look split: if_splits)
  have dist': "distinct (map fst (active_anomalies s'))"
    using dist by (simp add: reg distinct_update)
  have "consistent s'"
    unfolding consistent_def
  proof (intro conjI allI impI)
    show "distinct (map fst (active_anomalies s'))" by (rule dist')
  next
    fix k1 n1 k2 n2
    assume "map_of (active_anomalies s') k1 = Some n1 \<and> n1 \<noteq> [] \<and>
            map_of (active_anomalies s') k2 = Some n2 \<and> n2 \<noteq> []"
    then show "k1 = k2" using empty by blast
  next
    fix k' nodes' n
    assume a: "map_of (active_anomalies s') k' = Some nodes' \<and> n \<in> set nodes'"
    then have False using empty by fastforce
    then show "0 \<le> n" "n < num_nodes s'" "node_status s' n = Some (degraded_status k')"
      by simp_all
  next
    fix nodes'
    assume "map_of (active_anomalies s') memory_errors = Some nodes'"
    then show "length nodes' \<le> 1" using empty by fastforce
  next
    fix n st'
    assume a: "node_status s' n = Some st' \<and> st' \<noteq> OPERATIONAL"
    then have out: "n \<notin> set nodes" and old: "node_status s n = Some st'"
      by (auto simp: st split: if_splits)
    with a c obtain k' nodes' where k': "map_of ?d k' = Some nodes'" "n \<in> set nodes'"
      unfolding consistent_def by blast
    then have "k' = k" using only by fastforce
    then have False using k' live(1) out by simp
    then show "\<exists>k' nodes. map_of (active_anomalies s') k' = Some nodes \<and> n \<in> set nodes"
      by simp
  next
    fix n
    assume "0 \<le> n \<and> n < num_nodes s'"
    then show "node_status s' n \<noteq> None"
      using c n by (auto simp: st consistent_def)
  qed
  moreover have "\<not> any_active s'"
    using empty by (fastforce simp: any_active_map_of [OF dist'])
  ultimately show ?thesis by simp
qed

section \<open>The normal log and the onset as a whole\<close>

lemma message_templates_nonempty: "message_templates c \<noteq> []"
  by (cases c) (simp_all add: message_templates_def)

lemma normal_log_spec:
  assumes "t \<longrightarrow> 10 \<le> num_nodes s \<and> (\<forall>n. 0 \<le> n \<and> n < num_nodes s \<longrightarrow> node_status s n \<noteq> None)"
  shows "outcome t normal_log (normal s) s"
  using assms unfolding normal_log_def
  apply simp
  apply (rule outcome_randint)
  subgoal by auto
  apply (rule outcome_random_choice, simp add: components_def)
  apply (rule outcome_get_severity)
  subgoal by (auto simp: quiet_def steady_def)
  apply (rule outcome_random_choice, simp add: message_templates_nonempty)
  apply (rule outcome_fill_and_append)
  subgoal by (auto simp: quiet_def steady_def)
  apply (auto simp: normal_def quiet_def steady_def)
  done

lemma onset_after_quiet:
  assumes "quiet s s1" and "onset k st s1 logs affected s'"
  shows "onset k st s logs affected s'"
  using assms by (auto simp: onset_def quiet_def steady_def elim: stamped_widen)

lemma py_range_nonempty: "a < b \<Longrightarrow> py_range a b \<noteq> []"
  by (simp add: py_range_def)

lemma weaker_bound: "t \<longrightarrow> (a::int) \<le> n \<Longrightarrow> b \<le> a \<Longrightarrow> t \<longrightarrow> b \<le> n"
  by auto

lemma onset_ofI:
  assumes "onset k st s1 logs affected s'" and "quiet s s1" and "st = degraded_status k"
    and "log_node_id ` set logs = set affected" and "affected \<noteq> []"
    and "set affected \<subseteq> {0..<num_nodes s1}"
    and "k = memory_errors \<longrightarrow> length affected = 1"
  shows "onset_of k s logs affected s'"
proof -
  have "num_nodes s1 = num_nodes s"
    using assms(2) by (simp add: quiet_def steady_def)
  moreover have "logs \<noteq> []"
    using assms(4,5) by auto
  ultimately show ?thesis
    unfolding onset_of_def
    using assms onset_after_quiet [OF assms(2,1)] by auto
qed

lemma network_onset_of:
  assumes "t \<longrightarrow> 100 \<le> num_nodes s1" and "quiet s s1"
  shows "outcome t create_network_partition
           (\<lambda>(logs, affected) s'. onset_of network_partition s logs affected s') s1"
  apply (rule outcome_mono [OF create_network_partition_spec [OF assms(1)]])
  apply clarify
  apply (erule onset_ofI [OF _ assms(2)])
       apply (auto simp: degraded_status_def py_range_nonempty simp flip: set_map)
  done

lemma rack_onset_of:
  assumes "t \<longrightarrow> 100 \<le> num_nodes s1" and "quiet s s1"
  shows "outcome t create_rack_power_failure
           (\<lambda>(logs, affected) s'. onset_of rack_power_failure s logs affected s') s1"
proof (rule outcome_mono [OF create_rack_power_failure_spec
        [OF weaker_bound [OF assms(1)]]], simp, clarify)
  fix s' rack_id m es
  let ?aff = "py_range (rack_id * 32) (rack_id * 32 + 32)"
  assume a: "0 \<le> rack_id" "rack_id \<le> num_nodes s1 div 32 - 1"
    "log_node_id m = rack_id * 32" "map log_node_id es = ?aff"
    "onset rack_power_failure POWERED_OFF s1 (m # es) ?aff s'"
  have "log_node_id ` set es = set ?aff"
    using a(4) by (metis set_map)
  then have "log_node_id ` set (m # es) = set ?aff"
    using a(3) by auto
  moreover have "rack_id * 32 + 32 \<le> num_nodes s1"
    using a(2) by arith
  ultimately show "onset_of rack_power_failure s (m # es) ?aff s'"
    using a by (intro onset_ofI [OF a(5) assms(2)])
      (auto simp: degraded_status_def py_range_nonempty)
qed

lemma filesystem_onset_of:
  assumes "t \<longrightarrow> 100 \<le> num_nodes s1" and "quiet s s1"
  shows "outcome t create_filesystem_corruption
           (\<lambda>(logs, affected) s'. onset_of filesystem_corruption s logs affected s') s1"
proof (rule outcome_mono [OF create_filesystem_corruption_spec
        [OF weaker_bound [OF assms(1)]]], simp, clarify)
  fix logs s'
  assume a: "5 \<le> length (map log_node_id logs)"
    "set (map log_node_id logs) \<subseteq> {0..<num_nodes s1}"
    "onset filesystem_corruption FILESYSTEM_ERROR s1 logs (map log_node_id logs) s'"
  then show "onset_of filesystem_corruption s logs (map log_node_id logs) s'"
    by (intro onset_ofI [OF a(3) assms(2)]) (auto simp: degraded_status_def)
qed

lemma memory_onset_of:
  assumes "t \<longrightarrow> 100 \<le> num_nodes s1" and "quiet s s1"
  shows "outcome t create_memory_errors
           (\<lambda>(logs, affected) s'. onset_of memory_errors s logs affected s') s1"
proof (rule outcome_mono [OF create_memory_errors_spec
        [OF weaker_bound [OF assms(1)]]], simp, clarify)
  fix logs s' node and error_count :: int
  assume a: "0 \<le> node" "node \<le> num_nodes s1 - 1" "3 \<le> error_count"
    "list_all2 (\<lambda>i e. log_node_id e = node \<and> log_component e = MEMORY \<and>
                  log_severity e = cascade_severity error_count i)
       (py_range 0 error_count) logs"
    "onset memory_errors MEMORY_ERROR s1 logs [node] s'"
  have len: "length logs = nat error_count"
    using a(4) by (simp add: list_all2_lengthD [symmetric])
  then have "logs \<noteq> []" using a(3) by auto
  moreover have "\<forall>e\<in>set logs. log_node_id e = node"
    using a(4) by (auto simp: list_all2_conv_all_nth in_set_conv_nth)
  ultimately have "log_node_id ` set logs = set [node]"
    by (cases logs) auto
  then show "onset_of memory_errors s logs [node] s'"
    using a by (intro onset_ofI [OF a(5) assms(2)]) (auto simp: degraded_status_def)
qed

lemma overheating_onset_of:
  assumes "t \<longrightarrow> 100 \<le> num_nodes s1" and "quiet s s1"
  shows "outcome t create_overheating
           (\<lambda>(logs, affected) s'. onset_of overheating s logs affected s') s1"
  apply (rule outcome_mono [OF create_overheating_spec [OF weaker_bound [OF assms(1)]]], simp)
  apply clarify
  apply (erule onset_ofI [OF _ assms(2)])
       apply (auto simp: degraded_status_def py_range_nonempty simp flip: set_map)
  done

lemma create_anomaly_spec:
  assumes "t \<longrightarrow> 100 \<le> num_nodes s"
  shows "outcome t create_anomaly
           (\<lambda>(logs, affected) s'. \<exists>k. onset_of k s logs affected s') s"
proof -
  have branch: "outcome t
       (case k of
         network_partition \<Rightarrow> create_network_partition
       | rack_power_failure \<Rightarrow> create_rack_power_failure
       | filesystem_corruption \<Rightarrow> create_filesystem_corruption
       | memory_errors \<Rightarrow> create_memory_errors
       | overheating \<Rightarrow> create_overheating)
       (\<lambda>(logs, affected) s'. onset_of k s logs affected s') s1"
    if q: "quiet s s1" for k s1
  proof -
    have n: "t \<longrightarrow> 100 \<le> num_nodes s1"
      using q assms by (simp add: quiet_def steady_def)
    show ?thesis
      using n by (cases k)
        (simp_all add: network_onset_of rack_onset_of filesystem_onset_of memory_onset_of
           overheating_onset_of q)
  qed
  show ?thesis
    unfolding create_anomaly_def
    apply simp
    apply (rule outcome_random_choice, simp add: anomaly_kinds_def)
    apply (rule outcome_mono [OF branch])
     apply assumption
    apply auto
    done
qed

section \<open>One iteration of the generation loop\<close>

lemma stepped_onset:
  assumes "onset_of k s logs affected s'" and "\<not> any_active s"
  shows "stepped s logs s'"
  unfolding stepped_def
proof (intro conjI impI)
  show "stamped s logs s'" "steady s s'"
    using assms(1) by (simp_all add: onset_of_def onset_def)
  show "logs \<noteq> []"
    using assms(1) by (simp add: onset_of_def)
  show "in_range s logs"
    using assms(1) by (fastforce simp: onset_of_def in_range_def list_all_iff)
  show "consistent s'" if "consistent s"
    by (rule consistent_onset [OF that assms(2,1)])
qed

lemma stepped_normal:
  assumes "normal s1 logs s'" and "quiet s s1"
  shows "stepped s logs s'"
proof -
  from assms(1) obtain e where e: "logs = [e]" "0 \<le> log_node_id e"
      "log_node_id e < num_nodes s1" "log_timestamp e = current_time s' div 1000"
    and q: "quiet s1 s'"
    by (auto simp: normal_def)
  have q': "quiet s s'" by (rule quiet_trans [OF assms(2) q])
  then have "stamped s logs s'"
    using e by (simp add: stamped_single quiet_def steady_def)
  moreover have "in_range s logs"
    using e assms(2) by (simp add: in_range_def quiet_def steady_def)
  ultimately show ?thesis
    unfolding stepped_def using q' e(1) consistent_quiet [OF q'] by (simp add: quiet_def)
qed

lemma onset_of_after_quiet:
  assumes "quiet s s1" and "onset_of k s1 logs affected s'"
  shows "onset_of k s logs affected s'"
  using assms onset_after_quiet [OF assms(1)]
  by (auto simp: onset_of_def quiet_def steady_def)

lemma stepped_continued:
  assumes "continued s1 logs s'" and "quiet s s1" and "any_active s"
  shows "stepped s logs s'"
proof -
  have st: "stamped s1 logs s'" "steady s1 s'"
    using assms(1) by (simp_all add: continued_def)
  have a: "stamped s logs s'" "steady s s'"
    using st assms(2) by (auto simp: quiet_def steady_def elim: stamped_widen)
  have b: "consistent s' \<and> logs \<noteq> [] \<and> in_range s logs" if c: "consistent s"
  proof -
    have c1: "consistent s1" by (rule consistent_quiet [OF assms(2) c])
    have "any_active s1"
      using assms(2,3) by (simp add: any_active_def quiet_def)
    with c1 assms(1) obtain k nodes
      where live: "map_of (active_anomalies s1) k = Some nodes" "nodes \<noteq> []"
        and alt: "resolution k nodes s1 logs s' \<or> continuation k nodes s1 logs s'"
      unfolding continued_def consistent_def by blast
    have range: "\<forall>n\<in>set nodes. 0 \<le> n \<and> n < num_nodes s"
      using c1 live(1) assms(2) unfolding consistent_def quiet_def steady_def by fastforce
    from alt show ?thesis
    proof
      assume r: "resolution k nodes s1 logs s'"
      have res: "resolved_nodes k nodes \<noteq> [] \<and> set (resolved_nodes k nodes) \<subseteq> set nodes"
        using live(2) by (auto simp: resolved_nodes_def dest: in_set_takeD)
      from r obtain master es where l: "logs = master @ es"
          "if k = rack_power_failure then map log_node_id master = take 1 nodes else master = []"
          "map log_node_id es = resolved_nodes k nodes"
        by (auto simp: resolution_def)
      have "es \<noteq> []" using l(3) res by auto
      moreover have "log_node_id ` set es \<subseteq> set nodes"
        using l(3) res by (metis set_map)
      moreover have "log_node_id ` set master \<subseteq> set nodes"
      proof (cases "k = rack_power_failure")
        case True
        then have "set (map log_node_id master) \<subseteq> set nodes"
          using l(2) by (auto dest: in_set_takeD)
        then show ?thesis by simp
      next
        case False
        then show ?thesis using l(2) by simp
      qed
      ultimately have "logs \<noteq> []" "in_range s logs"
        using l(1) range by (auto simp: in_range_def list_all_iff)
      then show ?thesis
        using consistent_resolution [OF c1 live r] by simp
    next
      assume "continuation k nodes s1 logs s'"
      then obtain e where e: "logs = [e]" "log_node_id e \<in> set nodes" and q: "quiet s1 s'"
        by (auto simp: continuation_def)
      then show ?thesis
        using range consistent_quiet [OF q c1] by (simp add: in_range_def)
    qed
  qed
  show ?thesis
    unfolding stepped_def using a b by simp
qed

lemma generate_logs_step_spec:
  assumes "t \<longrightarrow> 100 \<le> num_nodes s \<and> consistent s"
  shows "outcome t generate_logs_step (stepped s) s"
proof -
  have main: "outcome t
     (if r < anomaly_probability s1 \<and> \<not> any_active s1 then
       bindM create_anomaly (\<lambda>(anomaly_logs, _). returnM anomaly_logs)
     else
       bindM (if any_active s1 then bindM random_random (\<lambda>r. returnM (r < 3 / 10))
              else returnM False) (\<lambda>continuing.
       if continuing then continue_anomaly else normal_log)) (stepped s) s1"
    if q1: "quiet s s1" for r :: rat and s1
  proof -
    have n1: "t \<longrightarrow> 100 \<le> num_nodes s1" "any_active s1 = any_active s"
      using assms q1 by (simp_all add: quiet_def steady_def any_active_def)
    have onset: "outcome t (bindM create_anomaly (\<lambda>(anomaly_logs, _). returnM anomaly_logs))
                   (stepped s) s1"
      if "\<not> any_active s"
      by (simp, rule outcome_mono [OF create_anomaly_spec [OF n1(1)]])
        (auto intro!: stepped_onset onset_of_after_quiet [OF q1] simp: that)
    have normal: "outcome t normal_log (stepped s) s2" if q2: "quiet s s2" for s2
    proof (rule outcome_mono [OF normal_log_spec])
      show "t \<longrightarrow> 10 \<le> num_nodes s2 \<and>
              (\<forall>n. 0 \<le> n \<and> n < num_nodes s2 \<longrightarrow> node_status s2 n \<noteq> None)"
        using assms q2 by (auto simp: quiet_def steady_def consistent_def)
    qed (rule stepped_normal [OF _ q2])
    have continue: "outcome t continue_anomaly (stepped s) s2"
      if q2: "quiet s s2" and a: "any_active s" for s2
    proof (rule outcome_mono [OF continue_anomaly_spec])
      show "t \<longrightarrow> 10 \<le> num_nodes s2"
        using assms q2 by (auto simp: quiet_def steady_def)
    qed (rule stepped_continued [OF _ q2 a])
    have rest: "outcome t
         (bindM (if any_active s1 then bindM random_random (\<lambda>r. returnM (r < 3 / 10))
                else returnM False) (\<lambda>continuing.
         if continuing then continue_anomaly else normal_log)) (stepped s) s1"
    proof (cases "any_active s")
      case True
      have "outcome t (if r' < 3 / 10 then continue_anomaly else normal_log) (stepped s) s2"
        if "quiet s1 s2" for r' :: rat and s2
        using continue [OF quiet_trans [OF q1 that] True] normal [OF quiet_trans [OF q1 that]]
        by simp
      then show ?thesis
        using True n1(2) by (simp add: outcome_random_random)
    next
      case False
      then show ?thesis
        using n1(2) normal [OF q1] by simp
    qed
    show ?thesis
      using onset rest n1(2) by (simp only: split: if_split) blast
  qed
  show ?thesis
    unfolding generate_logs_step_def
    by (simp only: outcome_bind outcome_gets) (rule outcome_random_random, rule main)
qed

section \<open>The generation loop as a whole\<close>

lemma generated_start: "generated s 0 [] s"
  by (simp add: generated_def in_range_def)

lemma generated_step:
  assumes "generated s n acc s1" and "stepped s1 new s2"
  shows "generated s (n + 1) (acc @ new) s2"
proof -
  have a: "stamped s acc s1" "steady s s1" "stamped s1 new s2" "steady s1 s2"
    using assms by (simp_all add: generated_def stepped_def)
  have "stamped s (acc @ new) s2"
    using stamped_append [OF a(1,3)] a(2,4) by (simp add: steady_def)
  moreover have "steady s s2"
    by (rule steady_trans [OF a(2,4)])
  moreover have "consistent s2 \<and> n + 1 \<le> int (length (acc @ new)) \<and> in_range s (acc @ new)"
    if c: "consistent s"
  proof -
    have c1: "consistent s1" "n \<le> int (length acc)" "in_range s acc"
      using assms(1) c by (simp_all add: generated_def)
    then have "consistent s2" "new \<noteq> []" "in_range s1 new"
      using assms(2) by (simp_all add: stepped_def)
    moreover have "1 \<le> int (length new)"
      using \<open>new \<noteq> []\<close> by (cases new) simp_all
    ultimately show ?thesis
      using c1 a(2) by (simp add: in_range_def steady_def)
  qed
  ultimately show ?thesis
    by (simp add: generated_def)
qed

lemma generate_logs_spec:
  assumes "t \<longrightarrow> 100 \<le> num_nodes s \<and> consistent s"
  shows "outcome t (generate_logs count) (generated s count) s"
proof -
  let ?I = "\<lambda>(p :: int list) acc s'. generated s (int (length p)) acc s'"
  let ?body = "\<lambda>(_ :: int) logs. bindM generate_logs_step (\<lambda>new_logs. returnM (logs @ new_logs))"
  have "outcome t (for_loop (py_range 0 count) ?body []) (?I ([] @ py_range 0 count)) s"
  proof (rule outcome_for_loop_prefix [where I = ?I])
    show "?I [] [] s" by (simp add: generated_start)
  next
    fix p :: "int list" and x :: int and q :: "int list" and acc s1
    assume i: "generated s (int (length p)) acc s1"
    have pre: "t \<longrightarrow> 100 \<le> num_nodes s1 \<and> consistent s1"
      using assms i by (auto simp: generated_def steady_def)
    have "outcome t generate_logs_step
            (\<lambda>new s2. generated s (int (length (p @ [x]))) (acc @ new) s2) s1"
      by (rule outcome_mono [OF generate_logs_step_spec [OF pre]])
        (use generated_step [OF i] in \<open>simp add: add.commute\<close>)
    then show "outcome t (?body x acc) (?I (p @ [x])) s1"
      by simp
  qed
  then show ?thesis
    unfolding generate_logs_def
    by (rule outcome_mono) (auto simp: generated_def split: if_splits)
qed

lemma generate_logs_step_idle:
  assumes "t \<longrightarrow> 10 \<le> num_nodes s \<and> (\<forall>n. 0 \<le> n \<and> n < num_nodes s \<longrightarrow> node_status s n \<noteq> None)"
    and "anomaly_probability s \<le> 0" and "\<not> any_active s"
  shows "outcome t generate_logs_step (exactly s 1) s"
proof -
  have main: "outcome t
     (if r < anomaly_probability s1 \<and> \<not> any_active s1 then
       bindM create_anomaly (\<lambda>(anomaly_logs, _). returnM anomaly_logs)
     else
       bindM (if any_active s1 then bindM random_random (\<lambda>r. returnM (r < 3 / 10))
              else returnM False) (\<lambda>continuing.
       if continuing then continue_anomaly else normal_log)) (exactly s 1) s1"
    if q1: "quiet s s1" and r: "0 \<le> r" for r :: rat and s1
  proof -
    have n1: "\<not> r < anomaly_probability s1" "\<not> any_active s1"
      using assms(2,3) q1 r by (simp_all add: quiet_def steady_def any_active_def)
    have pre: "t \<longrightarrow> 10 \<le> num_nodes s1 \<and>
                 (\<forall>n. 0 \<le> n \<and> n < num_nodes s1 \<longrightarrow> node_status s1 n \<noteq> None)"
      using assms(1) q1 by (simp add: quiet_def steady_def)
    have "outcome t normal_log (exactly s 1) s1"
      by (rule outcome_mono [OF normal_log_spec [OF pre]])
        (use q1 in \<open>auto simp: normal_def exactly_def intro: quiet_trans\<close>)
    then show ?thesis
      using n1 by simp
  qed
  show ?thesis
    unfolding generate_logs_step_def
    by (simp only: outcome_bind outcome_gets) (rule outcome_random_random, rule main)
qed

lemma generate_logs_idle:
  assumes "t \<longrightarrow> 10 \<le> num_nodes s \<and> (\<forall>n. 0 \<le> n \<and> n < num_nodes s \<longrightarrow> node_status s n \<noteq> None)"
    and "anomaly_probability s \<le> 0" and "\<not> any_active s"
  shows "outcome t (generate_logs count) (exactly s (max 0 count)) s"
proof -
  let ?I = "\<lambda>(p :: int list) acc s'. exactly s (int (length p)) acc s'"
  let ?body = "\<lambda>(_ :: int) logs. bindM generate_logs_step (\<lambda>new_logs. returnM (logs @ new_logs))"
  have "outcome t (for_loop (py_range 0 count) ?body []) (?I ([] @ py_range 0 count)) s"
  proof (rule outcome_for_loop_prefix [where I = ?I])
    show "?I [] [] s" by (simp add: exactly_def)
  next
    fix p :: "int list" and x :: int and q :: "int list" and acc s1
    assume i: "exactly s (int (length p)) acc s1"
    then have q1: "quiet s s1" by (simp add: exactly_def)
    have pre: "t \<longrightarrow> 10 \<le> num_nodes s1 \<and>
                 (\<forall>n. 0 \<le> n \<and> n < num_nodes s1 \<longrightarrow> node_status s1 n \<noteq> None)"
      "anomaly_probability s1 \<le> 0" "\<not> any_active s1"
      using assms q1 by (simp_all add: quiet_def steady_def any_active_def)
    have "outcome t generate_logs_step
            (\<lambda>new s2. exactly s (int (length (p @ [x]))) (acc @ new) s2) s1"
      by (rule outcome_mono [OF generate_logs_step_idle [OF pre]])
        (use i in \<open>auto simp: exactly_def intro: quiet_trans\<close>)
    then show "outcome t (?body x acc) (?I (p @ [x])) s1"
      by simp
  qed
  then show ?thesis
    unfolding generate_logs_def
    by (rule outcome_mono) (auto simp: exactly_def)
qed

section \<open>The invariant holds in every state of a run\<close>

lemma outcome_run: "m s = Inr (x, s') \<Longrightarrow> outcome t m Q s \<Longrightarrow> Q x s'"
  by (simp add: outcome_def)

lemma outcome_returns: "outcome True m Q s \<Longrightarrow> \<exists>x s'. m s = Inr (x, s') \<and> Q x s'"
  by (simp add: outcome_total_iff)

lemma reachable_consistent: "reachable s \<Longrightarrow> consistent s"
proof (induction rule: reachable.induct)
  case (fresh n c e p now draws)
  show ?case by (rule consistent_fresh)
next
  case (tick s logs s')
  have "outcome False generate_logs_step (stepped s) s"
    by (rule generate_logs_step_spec) simp
  from outcome_run [OF tick.hyps(2) this] tick.IH show ?case
    by (simp add: stepped_def)
qed

lemma for_loop_reachable:
  assumes "for_loop xs (\<lambda>_ logs. bindM generate_logs_step (\<lambda>new_logs. returnM (logs @ new_logs)))
             acc s = Inr (logs, s')"
    and "reachable s"
  shows "reachable s'"
  using assms
proof (induction xs arbitrary: acc s)
  case Nil
  then show ?case by (simp add: returnM_def)
next
  case (Cons x xs)
  from Cons.prems(1) obtain new s1 where
    step: "generate_logs_step s = Inr (new, s1)" and
    rest: "for_loop xs (\<lambda>_ logs. bindM generate_logs_step (\<lambda>new_logs. returnM (logs @ new_logs)))
             (acc @ new) s1 = Inr (logs, s')"
    by (auto simp: bindM_def returnM_def split: sum.splits)
  have "reachable s1"
    by (rule reachable.tick [OF Cons.prems(2) step])
  then show ?case
    by (rule Cons.IH [OF rest])
qed

lemma generate_logs_reachable:
  "reachable s \<Longrightarrow> generate_logs count s = Inr (logs, s') \<Longrightarrow> reachable s'"
  unfolding generate_logs_def by (rule for_loop_reachable)

lemma quiet_drawn: "quiet s (drawn s)"
  by (simp add: drawn_def quiet_def steady_def)

lemma create_anomaly_drawn:
  "create_anomaly s =
     (case drawn_kind s of
        network_partition \<Rightarrow> create_network_partition
      | rack_power_failure \<Rightarrow> create_rack_power_failure
      | filesystem_corruption \<Rightarrow> create_filesystem_corruption
      | memory_errors \<Rightarrow> create_memory_errors
      | overheating \<Rightarrow> create_overheating) (drawn s)"
  by (simp add: create_anomaly_def random_choice_def anomaly_kinds_def bindM_def next_draw_def
      returnM_def drawn_def drawn_kind_def)

lemma generate_logs_step_fires:
  assumes "\<not> any_active s" and "drawn_random s < anomaly_probability s"
  shows "generate_logs_step s =
           bindM create_anomaly (\<lambda>(anomaly_logs, _). returnM anomaly_logs) (drawn s)"
  using assms
  by (simp add: generate_logs_step_def random_random_def bindM_def next_draw_def returnM_def
      getsM_def any_active_def drawn_def drawn_random_def)

lemma tick_fires:
  assumes "reachable s" and "100 \<le> num_nodes s" and "\<not> any_active s"
    and "drawn_random s < anomaly_probability s"
  shows "\<exists>s' k affected. reachable s' \<and> steady s s' \<and> affected \<noteq> [] \<and>
           map_of (active_anomalies s') k = Some (dict_get k (active_anomalies s) @ affected) \<and>
           (\<forall>n\<in>set affected. node_status s' n = Some (degraded_status k))"
proof -
  have "outcome True create_anomaly
          (\<lambda>(logs, affected) s'. \<exists>k. onset_of k (drawn s) logs affected s') (drawn s)"
    by (rule create_anomaly_spec) (simp add: assms(2) drawn_def)
  then obtain logs affected s' k where
    run: "create_anomaly (drawn s) = Inr ((logs, affected), s')" and
    on: "onset_of k (drawn s) logs affected s'"
    by (auto dest!: outcome_returns)
  have "generate_logs_step s = Inr (logs, s')"
    using run by (simp add: generate_logs_step_fires [OF assms(3,4)] bindM_def returnM_def)
  then have "reachable s'"
    by (rule reachable.tick [OF assms(1)])
  moreover have "affected \<noteq> []"
    using on by (simp add: onset_of_def)
  moreover have "steady s s'"
    using on by (simp add: onset_of_def onset_def steady_def drawn_def)
  moreover have "map_of (active_anomalies s') k =
                   Some (dict_get k (active_anomalies s) @ affected)"
    using on by (simp add: onset_of_def onset_def update_conv' drawn_def)
  moreover have "\<forall>n\<in>set affected. node_status s' n = Some (degraded_status k)"
    using on by (simp add: onset_of_def onset_def)
  ultimately show ?thesis by blast
qed

lemma reachable_idle:
  "reachable s \<Longrightarrow> anomaly_probability s \<le> 0 \<Longrightarrow> \<not> any_active s"
proof (induction rule: reachable.induct)
  case (fresh n c e p now draws)
  show ?case by (simp add: any_active_def BGLLogSimulator_def)
next
  case (tick s logs s')
  have "outcome False generate_logs_step (stepped s) s"
    by (rule generate_logs_step_spec) simp
  from outcome_run [OF tick.hyps(2) this] have "anomaly_probability s = anomaly_probability s'"
    by (simp add: stepped_def steady_def)
  then have idle: "anomaly_probability s \<le> 0" "\<not> any_active s"
    using tick.prems tick.IH by simp_all
  have "outcome False generate_logs_step (exactly s 1) s"
    by (rule generate_logs_step_idle [OF _ idle]) simp
  from outcome_run [OF tick.hyps(2) this] idle(2) show ?case
    by (simp add: exactly_def quiet_def any_active_def)
qed

section \<open>Length, node ids and timestamps of the output; the registry in a run\<close>

lemma reachable_default: "reachable default_simulator"
  by (simp add: default_simulator_def reachable.fresh)

lemma reachable_eager: "reachable (eager_simulator d)"
  by (simp add: eager_simulator_def reachable.fresh)

lemma eager_fires:
  "\<exists>s k affected. reachable s \<and> steady (eager_simulator 0) s \<and> affected \<noteq> [] \<and>
     map_of (active_anomalies s) k = Some affected \<and>
     (\<forall>n\<in>set affected. node_status s n = Some (degraded_status k))"
proof -
  have "\<not> any_active (eager_simulator 0)"
    "drawn_random (eager_simulator 0) < anomaly_probability (eager_simulator 0)"
    "100 \<le> num_nodes (eager_simulator 0)"
    "active_anomalies (eager_simulator 0) = []"
    by (simp_all add: eager_simulator_def BGLLogSimulator_def any_active_def drawn_random_def)
  from tick_fires [OF reachable_eager this(3,1,2)] this(4) show ?thesis
    by (simp add: dict_get_def)
qed

lemma dict_get_nonempty:
  "dict_get k d \<noteq> [] \<longleftrightarrow> (\<exists>nodes. map_of d k = Some nodes \<and> nodes \<noteq> [])"
  by (cases "map_of d k") (simp_all add: dict_get_def)

lemma dict_get_member:
  "n \<in> set (dict_get k d) \<longleftrightarrow> (\<exists>nodes. map_of d k = Some nodes \<and> n \<in> set nodes)"
  by (cases "map_of d k") (simp_all add: dict_get_def)

lemma generate_logs_returns:
  assumes "reachable s" and "100 \<le> num_nodes s"
  shows "\<exists>logs s'. generate_logs count s = Inr (logs, s') \<and> generated s count logs s'"
  by (rule outcome_returns, rule generate_logs_spec)
    (simp add: assms reachable_consistent)

text \<open>
  Claim C1, as amended. In every state of a run on a machine of at least 100 nodes,
  \<^verbatim>\<open>generate_logs(count)\<close> returns, and returns at least \<open>count\<close> entries. When moreover the anomaly
  probability is 0 (or less), it returns exactly \<open>count\<close> entries, already on a machine of
  at least 10 nodes; a negative \<open>count\<close> counts as 0, as \<^verbatim>\<open>range(count)\<close> does.
\<close>

theorem generate_logs_length:
  assumes "reachable s"
  shows "(100 \<le> num_nodes s \<longrightarrow>
            (\<exists>logs s'. generate_logs count s = Inr (logs, s') \<and> count \<le> int (length logs))) \<and>
         (10 \<le> num_nodes s \<and> anomaly_probability s \<le> 0 \<longrightarrow>
            (\<exists>logs s'. generate_logs count s = Inr (logs, s') \<and>
               int (length logs) = max 0 count))"
proof (intro conjI impI)
  assume "100 \<le> num_nodes s"
  from generate_logs_returns [OF assms this, of count] show
    "\<exists>logs s'. generate_logs count s = Inr (logs, s') \<and> count \<le> int (length logs)"
    using reachable_consistent [OF assms] by (auto simp: generated_def)
next
  assume a: "10 \<le> num_nodes s \<and> anomaly_probability s \<le> 0"
  have c: "consistent s" by (rule reachable_consistent [OF assms])
  have "outcome True (generate_logs count) (exactly s (max 0 count)) s"
  proof (rule generate_logs_idle)
    show "True \<longrightarrow> 10 \<le> num_nodes s \<and>
            (\<forall>n. 0 \<le> n \<and> n < num_nodes s \<longrightarrow> node_status s n \<noteq> None)"
      using a c by (simp add: consistent_def)
    show "anomaly_probability s \<le> 0" using a by simp
    show "\<not> any_active s" using a by (simp add: reachable_idle [OF assms])
  qed
  from outcome_returns [OF this] show
    "\<exists>logs s'. generate_logs count s = Inr (logs, s') \<and> int (length logs) = max 0 count"
    by (auto simp: exactly_def)
qed

theorem generate_logs_length_witness:
  "reachable default_simulator \<and> 100 \<le> num_nodes default_simulator \<and>
   (\<exists>logs s'. generate_logs 7 default_simulator = Inr (logs, s') \<and> 7 \<le> int (length logs)) \<and>
   10 \<le> num_nodes (BGLLogSimulator 10 10 (1 / 20) 0 0 (\<lambda>i. i)) \<and>
   anomaly_probability (BGLLogSimulator 10 10 (1 / 20) 0 0 (\<lambda>i. i)) \<le> 0 \<and>
   (\<exists>logs s'. generate_logs 7 (BGLLogSimulator 10 10 (1 / 20) 0 0 (\<lambda>i. i)) = Inr (logs, s') \<and>
      int (length logs) = 7)"
proof -
  have a: "100 \<le> num_nodes default_simulator"
    by (simp add: default_simulator_def BGLLogSimulator_def)
  have b: "10 \<le> num_nodes (BGLLogSimulator 10 10 (1 / 20) 0 0 (\<lambda>i. i)) \<and>
           anomaly_probability (BGLLogSimulator 10 10 (1 / 20) 0 0 (\<lambda>i. i)) \<le> 0"
    by (simp add: BGLLogSimulator_def)
  show ?thesis
    using generate_logs_length [OF reachable_default, of 7]
      generate_logs_length [OF reachable.fresh, of 10 10 "1 / 20" 0 0 "\<lambda>i. i" 7]
      a b reachable_default
    by simp
qed

text \<open>
  Claim C2. In every state of a run, every entry that \<^verbatim>\<open>generate_logs(count)\<close> returns carries
  a node id in \<^verbatim>\<open>[0, num_nodes)\<close>, whatever part of the loop has emitted it; and on a machine
  of at least 100 nodes the call does return.
\<close>

theorem generate_logs_node_ids:
  assumes "reachable s"
  shows "(\<forall>logs s'. generate_logs count s = Inr (logs, s') \<longrightarrow>
            list_all (\<lambda>e. 0 \<le> log_node_id e \<and> log_node_id e < num_nodes s) logs) \<and>
         (100 \<le> num_nodes s \<longrightarrow> (\<exists>logs s'. generate_logs count s = Inr (logs, s')))"
proof (intro conjI allI impI)
  fix logs s'
  assume run: "generate_logs count s = Inr (logs, s')"
  have "outcome False (generate_logs count) (generated s count) s"
    by (rule generate_logs_spec) simp
  from outcome_run [OF run this] reachable_consistent [OF assms]
  show "list_all (\<lambda>e. 0 \<le> log_node_id e \<and> log_node_id e < num_nodes s) logs"
    by (simp add: generated_def in_range_def)
next
  assume "100 \<le> num_nodes s"
  from generate_logs_returns [OF assms this, of count]
  show "\<exists>logs s'. generate_logs count s = Inr (logs, s')" by blast
qed

theorem generate_logs_node_ids_witness:
  "reachable default_simulator \<and> 100 \<le> num_nodes default_simulator \<and>
   (\<exists>logs s'. generate_logs 7 default_simulator = Inr (logs, s') \<and>
      list_all (\<lambda>e. 0 \<le> log_node_id e \<and> log_node_id e < 1024) logs)"
proof -
  have a: "num_nodes default_simulator = 1024"
    by (simp add: default_simulator_def BGLLogSimulator_def)
  show ?thesis
    using generate_logs_node_ids [OF reachable_default, of 7] reachable_default
    by (auto simp: a)
qed

text \<open>
  Claim C4. The timestamps of the entries that \<^verbatim>\<open>generate_logs(count)\<close> returns are
  non-decreasing in the order of the sequence, from any state at all. The extra advance of
  the clock made for a \<^verbatim>\<open>{timestamp}\<close> placeholder is part of \<open>fill_template_placeholders\<close>.
\<close>

theorem generate_logs_timestamps_sorted:
  assumes "generate_logs count s = Inr (logs, s')"
  shows "sorted (map log_timestamp logs)"
proof -
  have "outcome False (generate_logs count) (generated s count) s"
    by (rule generate_logs_spec) simp
  from outcome_run [OF assms this] show ?thesis
    by (simp add: generated_def stamped_def)
qed

theorem generate_logs_timestamps_sorted_witness:
  "\<exists>logs s'. generate_logs 7 default_simulator = Inr (logs, s') \<and> length logs \<ge> 7 \<and>
     sorted (map log_timestamp logs)"
proof -
  have "100 \<le> num_nodes default_simulator"
    by (simp add: default_simulator_def BGLLogSimulator_def)
  from generate_logs_returns [OF reachable_default this, of 7]
  obtain logs s' where run: "generate_logs 7 default_simulator = Inr (logs, s')"
    and g: "generated default_simulator 7 logs s'"
    by blast
  have "7 \<le> length logs"
    using g reachable_consistent [OF reachable_default] by (simp add: generated_def)
  with generate_logs_timestamps_sorted [OF run] run show ?thesis
    by blast
qed

text \<open>
  Against claim C5: no state of a run has two distinct anomaly kinds that both have a
  non-empty node list in the registry. An onset needs
  \<^verbatim>\<open>not any(self.active_anomalies.values())\<close>, and a resolution empties the list of its kind.
\<close>

theorem never_two_kinds_active:
  "\<not> (\<exists>s k k'. reachable s \<and> k \<noteq> k' \<and>
        dict_get k (active_anomalies s) \<noteq> [] \<and> dict_get k' (active_anomalies s) \<noteq> [])"
proof
  assume "\<exists>s k k'. reachable s \<and> k \<noteq> k' \<and>
        dict_get k (active_anomalies s) \<noteq> [] \<and> dict_get k' (active_anomalies s) \<noteq> []"
  then obtain s k k' where r: "reachable s" and ne: "k \<noteq> k'"
    and a: "dict_get k (active_anomalies s) \<noteq> []" "dict_get k' (active_anomalies s) \<noteq> []"
    by blast
  from reachable_consistent [OF r] a have "k = k'"
    unfolding consistent_def dict_get_nonempty by blast
  with ne show False by simp
qed

text \<open>
  Claim C5, as amended. In every state of a run at most one anomaly kind is active: two
  kinds that both have a non-empty node list in the registry are the same kind.
\<close>

theorem one_kind_active:
  assumes "reachable s"
    and "dict_get k (active_anomalies s) \<noteq> []" and "dict_get k' (active_anomalies s) \<noteq> []"
  shows "k = k'"
  using reachable_consistent [OF assms(1)] assms(2,3)
  unfolding consistent_def dict_get_nonempty by blast

theorem one_kind_active_witness:
  "\<exists>s k k'. reachable s \<and> dict_get k (active_anomalies s) \<noteq> [] \<and>
     dict_get k' (active_anomalies s) \<noteq> [] \<and> k = k'"
proof -
  from eager_fires obtain s k affected where
    r: "reachable s" and a: "affected \<noteq> []" "map_of (active_anomalies s) k = Some affected"
    by blast
  then have d: "dict_get k (active_anomalies s) \<noteq> []"
    by (simp add: dict_get_def)
  from one_kind_active [OF r d d] r d show ?thesis
    by blast
qed

text \<open>
  Claim C10. In every state of a run, a node has a status other than \<^verbatim>\<open>OPERATIONAL\<close>
  exactly when its id is in the node list of some anomaly kind of the registry, and a node
  in the list of a kind has the degraded status of that kind.
\<close>

theorem reachable_status_registry:
  assumes "reachable s"
  shows "((\<exists>st. node_status s n = Some st \<and> st \<noteq> OPERATIONAL) \<longleftrightarrow>
            (\<exists>k. n \<in> set (dict_get k (active_anomalies s)))) \<and>
         (\<forall>k. n \<in> set (dict_get k (active_anomalies s)) \<longrightarrow>
            node_status s n = Some (degraded_status k))"
proof -
  have c: "consistent s" by (rule reachable_consistent [OF assms])
  have listed: "node_status s n = Some (degraded_status k)"
    if "n \<in> set (dict_get k (active_anomalies s))" for k
    using c that unfolding consistent_def dict_get_member by blast
  have "\<exists>k. n \<in> set (dict_get k (active_anomalies s))"
    if "node_status s n = Some st" "st \<noteq> OPERATIONAL" for st
    using c that unfolding consistent_def dict_get_member by blast
  moreover have "degraded_status k \<noteq> OPERATIONAL" for k
    by (cases k) (simp_all add: degraded_status_def)
  ultimately show ?thesis
    using listed by blast
qed

theorem reachable_status_registry_witness:
  "\<exists>s n k. reachable s \<and> n \<in> set (dict_get k (active_anomalies s)) \<and>
     (\<exists>st. node_status s n = Some st \<and> st \<noteq> OPERATIONAL) \<and>
     node_status s n = Some (degraded_status k)"
proof -
  from eager_fires obtain s k affected where
    r: "reachable s" and a: "affected \<noteq> []" "map_of (active_anomalies s) k = Some affected"
    by blast
  then have "hd affected \<in> set (dict_get k (active_anomalies s))"
    by (simp add: dict_get_def)
  with reachable_status_registry [OF r, of "hd affected"] r show ?thesis
    by blast
qed

section \<open>The onsets of three kinds\<close>

lemma onset_status:
  "onset k st s logs affected s' \<Longrightarrow> n \<in> set affected \<Longrightarrow> node_status s' n = Some st"
  by (simp add: onset_def)

lemma num_nodes_drawn [simp]: "num_nodes (drawn s) = num_nodes s"
  by (simp add: drawn_def)

text \<open>
  Claim C8, as amended. On a machine of \<open>N \<ge> 100\<close> nodes, an onset of
  \<^verbatim>\<open>network_partition\<close> affects the contiguous ids \<^verbatim>\<open>range(start, start + n)\<close> with
  \<open>start\<close> drawn from \<open>[0, N - 100]\<close>, both ends included, and \<open>n\<close> in \<open>[10, 100]\<close>; it
  emits one \<^verbatim>\<open>ERROR\<close> entry of component \<^verbatim>\<open>NETWORK\<close> per affected node, in the order of the
  ids, and sets the status of each affected node to \<^verbatim>\<open>NETWORK_DEGRADED\<close>.
\<close>

theorem network_partition_onset:
  assumes "drawn_kind s = network_partition" and "100 \<le> num_nodes s"
  shows "\<exists>logs affected s' start n.
           create_anomaly s = Inr ((logs, affected), s') \<and>
           0 \<le> start \<and> start \<le> num_nodes s - 100 \<and> 10 \<le> n \<and> n \<le> 100 \<and>
           affected = py_range start (start + n) \<and>
           map log_node_id logs = affected \<and>
           list_all (\<lambda>e. log_severity e = ERROR \<and> log_component e = NETWORK) logs \<and>
           (\<forall>i\<in>set affected. node_status s' i = Some NETWORK_DEGRADED)"
proof -
  have "outcome True create_network_partition
           (\<lambda>(logs, affected) s'.
              (\<exists>start n. 0 \<le> start \<and> start \<le> num_nodes (drawn s) - 100 \<and> 10 \<le> n \<and> n \<le> 100 \<and>
                 affected = py_range start (start + n)) \<and>
              map log_node_id logs = affected \<and>
              list_all (\<lambda>e. log_component e = NETWORK \<and> log_severity e = ERROR) logs \<and>
              onset network_partition NETWORK_DEGRADED (drawn s) logs affected s') (drawn s)"
    by (rule create_network_partition_spec) (simp add: assms(2))
  from outcome_returns [OF this] obtain logs affected s' start n where
    run: "create_network_partition (drawn s) = Inr ((logs, affected), s')" and
    range: "0 \<le> start" "start \<le> num_nodes s - 100" "10 \<le> n" "n \<le> 100"
      "affected = py_range start (start + n)" and
    logs: "map log_node_id logs = affected"
      "list_all (\<lambda>e. log_component e = NETWORK \<and> log_severity e = ERROR) logs" and
    on: "onset network_partition NETWORK_DEGRADED (drawn s) logs affected s'"
    by auto
  have "create_anomaly s = Inr ((logs, affected), s')"
    using run by (simp add: create_anomaly_drawn assms(1))
  moreover have "list_all (\<lambda>e. log_severity e = ERROR \<and> log_component e = NETWORK) logs"
    using logs(2) by (simp add: list_all_iff)
  moreover have "\<forall>i\<in>set affected. node_status s' i = Some NETWORK_DEGRADED"
    using onset_status [OF on] by blast
  ultimately show ?thesis
    using range logs(1) by blast
qed

theorem network_partition_onset_witness:
  "drawn_kind (eager_simulator 0) = network_partition \<and> 100 \<le> num_nodes (eager_simulator 0) \<and>
   (\<exists>logs affected s' start n.
      create_anomaly (eager_simulator 0) = Inr ((logs, affected), s') \<and>
      0 \<le> start \<and> start \<le> 924 \<and> 10 \<le> n \<and> n \<le> 100 \<and>
      affected = py_range start (start + n) \<and> map log_node_id logs = affected \<and>
      list_all (\<lambda>e. log_severity e = ERROR \<and> log_component e = NETWORK) logs \<and>
      (\<forall>i\<in>set affected. node_status s' i = Some NETWORK_DEGRADED))"
proof -
  have a: "drawn_kind (eager_simulator 0) = network_partition"
    "num_nodes (eager_simulator 0) = 1024"
    by (simp_all add: drawn_kind_def eager_simulator_def BGLLogSimulator_def anomaly_kinds_def)
  show ?thesis
    using network_partition_onset [of "eager_simulator 0"] a by simp
qed

text \<open>
  Against claim C8: on a machine of exactly 100 nodes the interval \<open>[0, N - 100)\<close> of the claim
  is empty, yet the onset happens, and its first node is \<open>0 = N - 100\<close>, which is not below
  \<open>N - 100\<close>. The start is drawn by \<^verbatim>\<open>random.randint(0, N - 100)\<close>, which includes its upper end.
\<close>

theorem network_partition_start_at_upper_end:
  "num_nodes hundred_simulator = 100 \<and> drawn_kind hundred_simulator = network_partition \<and>
   (\<exists>logs affected s'. create_anomaly hundred_simulator = Inr ((logs, affected), s') \<and>
      hd affected = 0 \<and> \<not> hd affected < num_nodes hundred_simulator - 100)"
proof -
  have a: "drawn_kind hundred_simulator = network_partition"
    "num_nodes hundred_simulator = 100"
    by (simp_all add: drawn_kind_def hundred_simulator_def BGLLogSimulator_def anomaly_kinds_def)
  have "outcome True create_network_partition
           (\<lambda>(logs, affected) s'.
              (\<exists>start n. 0 \<le> start \<and> start \<le> num_nodes (drawn hundred_simulator) - 100 \<and>
                 10 \<le> n \<and> n \<le> 100 \<and> affected = py_range start (start + n)) \<and>
              map log_node_id logs = affected \<and>
              list_all (\<lambda>e. log_component e = NETWORK \<and> log_severity e = ERROR) logs \<and>
              onset network_partition NETWORK_DEGRADED (drawn hundred_simulator) logs affected s')
           (drawn hundred_simulator)"
    by (rule create_network_partition_spec) (simp add: a)
  from outcome_returns [OF this] obtain logs affected s' n where
    run: "create_network_partition (drawn hundred_simulator) = Inr ((logs, affected), s')" and
    range: "10 \<le> n" "affected = py_range 0 n"
    by (auto simp: a)
  have "create_anomaly hundred_simulator = Inr ((logs, affected), s')"
    using run by (simp add: create_anomaly_drawn a)
  moreover have "hd affected = 0"
    using range by (simp add: py_range_Cons)
  ultimately show ?thesis
    using a by auto
qed

text \<open>
  Claim C6. On a machine of at least 32 nodes, an onset of \<^verbatim>\<open>rack_power_failure\<close> affects
  exactly the 32 ids \<open>rack_id * 32 .. rack_id * 32 + 31\<close> of one rack, sets the status of each
  of them to \<^verbatim>\<open>POWERED_OFF\<close>, and emits one \<^verbatim>\<open>FATAL\<close> entry of component \<^verbatim>\<open>POWER\<close> followed by
  one \<^verbatim>\<open>ERROR\<close> entry of component \<^verbatim>\<open>POWER\<close> per affected node, in the order of the ids.
\<close>

theorem rack_power_failure_onset:
  assumes "drawn_kind s = rack_power_failure" and "32 \<le> num_nodes s"
  shows "\<exists>logs affected s' rack_id master es.
           create_anomaly s = Inr ((logs, affected), s') \<and>
           0 \<le> rack_id \<and> rack_id < num_nodes s div 32 \<and>
           affected = [rack_id * 32 .. rack_id * 32 + 31] \<and>
           (\<forall>i\<in>set affected. node_status s' i = Some POWERED_OFF) \<and>
           logs = master # es \<and>
           log_severity master = FATAL \<and> log_component master = POWER \<and>
           map log_node_id es = affected \<and>
           list_all (\<lambda>e. log_severity e = ERROR \<and> log_component e = POWER) es"
proof -
  have "outcome True create_rack_power_failure
           (\<lambda>(logs, affected) s'.
              (\<exists>rack_id. 0 \<le> rack_id \<and> rack_id \<le> num_nodes (drawn s) div 32 - 1 \<and>
                 affected = py_range (rack_id * 32) (rack_id * 32 + 32) \<and>
                 (\<exists>m es. logs = m # es \<and> log_node_id m = rack_id * 32 \<and>
                    log_component m = POWER \<and> log_severity m = FATAL \<and>
                    map log_node_id es = affected \<and>
                    list_all (\<lambda>e. log_component e = POWER \<and> log_severity e = ERROR) es)) \<and>
              onset rack_power_failure POWERED_OFF (drawn s) logs affected s') (drawn s)"
    by (rule create_rack_power_failure_spec) (simp add: assms(2))
  from outcome_returns [OF this] obtain logs affected s' rack_id m es where
    run: "create_rack_power_failure (drawn s) = Inr ((logs, affected), s')" and
    range: "0 \<le> rack_id" "rack_id \<le> num_nodes s div 32 - 1"
      "affected = py_range (rack_id * 32) (rack_id * 32 + 32)" and
    logs: "logs = m # es" "log_component m = POWER" "log_severity m = FATAL"
      "map log_node_id es = affected"
      "list_all (\<lambda>e. log_component e = POWER \<and> log_severity e = ERROR) es" and
    on: "onset rack_power_failure POWERED_OFF (drawn s) logs affected s'"
    by auto
  have "create_anomaly s = Inr ((logs, affected), s')"
    using run by (simp add: create_anomaly_drawn assms(1))
  moreover have "list_all (\<lambda>e. log_severity e = ERROR \<and> log_component e = POWER) es"
    using logs(5) by (simp add: list_all_iff)
  moreover have "\<forall>i\<in>set affected. node_status s' i = Some POWERED_OFF"
    using onset_status [OF on] by blast
  moreover have "affected = [rack_id * 32 .. rack_id * 32 + 31]"
    using range(3) by (simp add: py_range_def add.commute)
  moreover have "rack_id < num_nodes s div 32"
    using range(2) by simp
  ultimately show ?thesis
    using range(1) logs(1-4) by blast
qed

theorem rack_power_failure_onset_witness:
  "drawn_kind (eager_simulator 1) = rack_power_failure \<and> 32 \<le> num_nodes (eager_simulator 1) \<and>
   (\<exists>logs affected s' rack_id master es.
      create_anomaly (eager_simulator 1) = Inr ((logs, affected), s') \<and>
      0 \<le> rack_id \<and> rack_id < 32 \<and>
      affected = [rack_id * 32 .. rack_id * 32 + 31] \<and>
      (\<forall>i\<in>set affected. node_status s' i = Some POWERED_OFF) \<and>
      logs = master # es \<and>
      log_severity master = FATAL \<and> log_component master = POWER \<and>
      map log_node_id es = affected \<and>
      list_all (\<lambda>e. log_severity e = ERROR \<and> log_component e = POWER) es)"
proof -
  have a: "drawn_kind (eager_simulator 1) = rack_power_failure"
    "num_nodes (eager_simulator 1) = 1024"
    by (simp_all add: drawn_kind_def eager_simulator_def BGLLogSimulator_def anomaly_kinds_def)
  show ?thesis
    using rack_power_failure_onset [of "eager_simulator 1"] a by simp
qed

lemma cascade_nth:
  assumes "list_all2 (\<lambda>i e. P e \<and> log_severity e = cascade_severity c i) (py_range 0 c) logs"
  shows "int (length logs) = max 0 c \<and> list_all P logs \<and>
         (\<forall>i<length logs. log_severity (logs ! i) =
            (if i < 2 then WARNING else if i < length logs - 1 then ERROR else FATAL))"
proof -
  have len: "length logs = nat c"
    using list_all2_lengthD [OF assms] by simp
  have nth: "P (logs ! i) \<and> log_severity (logs ! i) = cascade_severity c (int i)"
    if "i < length logs" for i
  proof -
    have "py_range 0 c ! i = int i"
      using that len by (simp add: py_range_def)
    then show ?thesis
      using list_all2_nthD2 [OF assms that] by simp
  qed
  have "list_all P logs"
    unfolding list_all_length using nth by blast
  moreover have "log_severity (logs ! i) =
            (if i < 2 then WARNING else if i < length logs - 1 then ERROR else FATAL)"
    if "i < length logs" for i
  proof -
    have "int i < c - 1 \<longleftrightarrow> i < length logs - 1"
      using that len by auto
    then show ?thesis
      using nth [OF that] by (simp add: cascade_severity_def)
  qed
  ultimately show ?thesis
    using len by auto
qed

text \<open>
  Claim C7. An onset of \<^verbatim>\<open>memory_errors\<close> affects a single node of the machine, sets its
  status to \<^verbatim>\<open>MEMORY_ERROR\<close>, and emits between 3 and 10 entries of component
  \<^verbatim>\<open>MEMORY\<close>, all for that node: the first two are \<^verbatim>\<open>WARNING\<close>, the last is
  \<^verbatim>\<open>FATAL\<close>, the ones between are \<^verbatim>\<open>ERROR\<close>. On a machine of at least 10 nodes the
  onset does return.
\<close>

theorem memory_errors_onset:
  assumes "drawn_kind s = memory_errors"
  shows "(\<forall>logs affected s'. create_anomaly s = Inr ((logs, affected), s') \<longrightarrow>
            (\<exists>node. affected = [node] \<and> 0 \<le> node \<and> node < num_nodes s \<and>
               node_status s' node = Some MEMORY_ERROR \<and>
               3 \<le> length logs \<and> length logs \<le> 10 \<and>
               list_all (\<lambda>e. log_node_id e = node \<and> log_component e = MEMORY) logs \<and>
               (\<forall>i<length logs. log_severity (logs ! i) =
                  (if i < 2 then WARNING else if i < length logs - 1 then ERROR else FATAL)))) \<and>
         (10 \<le> num_nodes s \<longrightarrow>
            (\<exists>logs affected s'. create_anomaly s = Inr ((logs, affected), s')))"
proof -
  have spec: "outcome t create_memory_errors
           (\<lambda>(logs, affected) s'.
              (\<exists>node error_count. 0 \<le> node \<and> node \<le> num_nodes (drawn s) - 1 \<and> affected = [node] \<and>
                 3 \<le> error_count \<and> error_count \<le> 10 \<and>
                 list_all2 (\<lambda>i e. log_node_id e = node \<and> log_component e = MEMORY \<and>
                              log_severity e = cascade_severity error_count i)
                   (py_range 0 error_count) logs) \<and>
              onset memory_errors MEMORY_ERROR (drawn s) logs affected s') (drawn s)"
    if "t \<longrightarrow> 10 \<le> num_nodes s" for t
    by (rule create_memory_errors_spec) (simp add: that)
  have eq: "create_anomaly s = create_memory_errors (drawn s)"
    by (simp add: create_anomaly_drawn assms)
  have "\<exists>node. affected = [node] \<and> 0 \<le> node \<and> node < num_nodes s \<and>
               node_status s' node = Some MEMORY_ERROR \<and>
               3 \<le> length logs \<and> length logs \<le> 10 \<and>
               list_all (\<lambda>e. log_node_id e = node \<and> log_component e = MEMORY) logs \<and>
               (\<forall>i<length logs. log_severity (logs ! i) =
                  (if i < 2 then WARNING else if i < length logs - 1 then ERROR else FATAL))"
    if run: "create_anomaly s = Inr ((logs, affected), s')" for logs affected s'
  proof -
    from outcome_run [OF run [unfolded eq] spec [of False]] obtain node error_count where
      node: "0 \<le> node" "node \<le> num_nodes s - 1" "affected = [node]" and
      count: "3 \<le> error_count" "error_count \<le> 10" and
      cascade: "list_all2 (\<lambda>i e. (log_node_id e = node \<and> log_component e = MEMORY) \<and>
                              log_severity e = cascade_severity error_count i)
                   (py_range 0 error_count) logs" and
      on: "onset memory_errors MEMORY_ERROR (drawn s) logs affected s'"
      by auto
    from cascade_nth [OF cascade] count have
      "3 \<le> length logs" "length logs \<le> 10"
      "list_all (\<lambda>e. log_node_id e = node \<and> log_component e = MEMORY) logs"
      "\<forall>i<length logs. log_severity (logs ! i) =
          (if i < 2 then WARNING else if i < length logs - 1 then ERROR else FATAL)"
      by auto
    moreover have "node_status s' node = Some MEMORY_ERROR"
      using onset_status [OF on] node(3) by simp
    ultimately show ?thesis
      using node by auto
  qed
  moreover have "\<exists>logs affected s'. create_anomaly s = Inr ((logs, affected), s')"
    if "10 \<le> num_nodes s"
    using outcome_returns [OF spec [of True]] that unfolding eq by auto
  ultimately show ?thesis
    by blast
qed

theorem memory_errors_onset_witness:
  "drawn_kind (eager_simulator 3) = memory_errors \<and> 10 \<le> num_nodes (eager_simulator 3) \<and>
   (\<exists>logs affected s' node. create_anomaly (eager_simulator 3) = Inr ((logs, affected), s') \<and>
       affected = [node] \<and> 0 \<le> node \<and> node < 1024 \<and>
       node_status s' node = Some MEMORY_ERROR \<and>
       3 \<le> length logs \<and> length logs \<le> 10 \<and>
       list_all (\<lambda>e. log_node_id e = node \<and> log_component e = MEMORY) logs \<and>
       (\<forall>i<length logs. log_severity (logs ! i) =
          (if i < 2 then WARNING else if i < length logs - 1 then ERROR else FATAL)))"
proof -
  have a: "drawn_kind (eager_simulator 3) = memory_errors"
    "num_nodes (eager_simulator 3) = 1024"
    by (simp_all add: drawn_kind_def eager_simulator_def BGLLogSimulator_def anomaly_kinds_def)
  from memory_errors_onset [OF a(1)] a(2) obtain logs affected s' where
    run: "create_anomaly (eager_simulator 3) = Inr ((logs, affected), s')"
    by auto
  with memory_errors_onset [OF a(1)] a show ?thesis
    by auto
qed

section \<open>The resolving branch\<close>

lemma random_choice_drawn:
  "xs \<noteq> [] \<Longrightarrow>
     random_choice xs s = Inr (xs ! (rng_draws s (rng_pos s) mod length xs), drawn s)"
  by (cases xs) (simp_all add: random_choice_def bindM_def next_draw_def returnM_def drawn_def)










section \<open>A run that raises on a small machine\<close>

text \<open>The decimal digits of a numeral, for the evaluation of a run on given draws.\<close>

lemma str_nat_numeral:
  "str_nat (numeral n) =
     (if (numeral n :: nat) < 10 then [digit_char (numeral n)]
      else str_nat (numeral n div 10) @ [digit_char (numeral n mod 10)])"
  by (rule str_nat.simps)

lemma str_nat_small: "str_nat 0 = ''0''" "str_nat 1 = ''1''" "str_nat (Suc 0) = ''1''"
  by (simp_all add: str_nat.simps digit_char_def)

lemma fill_raises:
  assumes "rng_draws s = (\<lambda>i. 16)" and "num_nodes s = 5"
  shows "fill_template_placeholders ''Job {job_id} scheduled on nodes {node_range}'' 1 s
           = Inl ValueError"
  using assms
  by (simp add: fill_template_placeholders_def placeholders_def fill_placeholder_def
      bindM_def returnM_def raiseM_def getsM_def randint_str_def randint_def next_draw_def
      str_int_def str_nat_numeral str_nat_small digit_char_def)

lemma generate_logs_step_normal:
  assumes "\<not> any_active s" and "\<not> drawn_random s < anomaly_probability s"
  shows "generate_logs_step s = normal_log (drawn s)"
  using assms
  by (simp add: generate_logs_step_def random_random_def bindM_def next_draw_def returnM_def
      getsM_def any_active_def drawn_def drawn_random_def)

lemma randint_drawn:
  "a \<le> b \<Longrightarrow>
     randint a b s = Inr (a + int (rng_draws s (rng_pos s) mod nat (b - a + 1)), drawn s)"
  by (simp add: randint_def bindM_def next_draw_def returnM_def drawn_def)

lemma normal_log_raises:
  assumes "rng_draws s = (\<lambda>i. 16)" and "num_nodes s = 5"
    and "node_status s 1 = Some OPERATIONAL"
  shows "normal_log s = Inl ValueError"
proof -
  have node: "randint 0 (num_nodes s - 1) s = Inr (1, drawn s)"
    using randint_drawn [of 0 4 s] assms(1,2) by simp
  have component: "random_choice components (drawn s) = Inr (SCHEDULER, drawn (drawn s))"
    using assms(1) by (simp add: random_choice_drawn components_def drawn_def)
  have "outcome True (get_severity (Some SCHEDULER) (Some 1)) (\<lambda>x s'. quiet (drawn (drawn s)) s')
          (drawn (drawn s))"
    by (rule outcome_get_severity) (simp_all add: drawn_def assms(3))
  from outcome_returns [OF this] obtain severity s4 where
    sev: "get_severity (Some SCHEDULER) (Some 1) (drawn (drawn s)) = Inr (severity, s4)" and
    q: "quiet (drawn (drawn s)) s4"
    by blast
  have s4: "rng_draws s4 = (\<lambda>i. 16)" "num_nodes s4 = 5"
    using q assms(1,2) by (simp_all add: quiet_def steady_def drawn_def)
  have template: "random_choice (message_templates SCHEDULER) s4 =
                    Inr (''Job {job_id} scheduled on nodes {node_range}'', drawn s4)"
    using s4(1) by (simp add: random_choice_drawn message_templates_def)
  have "fill_template_placeholders ''Job {job_id} scheduled on nodes {node_range}'' 1 (drawn s4)
          = Inl ValueError"
    by (rule fill_raises) (simp_all add: s4 drawn_def)
  then have "fill_and_append 1 SCHEDULER severity
               ''Job {job_id} scheduled on nodes {node_range}'' [] (drawn s4) = Inl ValueError"
    by (simp add: fill_and_append_def bindM_def)
  then show ?thesis
    by (simp add: normal_log_def bindM_def getsM_def node component sev template)
qed

text \<open>
  Against claim C1: with anomaly probability 0 and a positive number of nodes below 10,
  \<^verbatim>\<open>generate_logs(1)\<close> can return no entry at all. The normal log of the first iteration
  draws the template \<^verbatim>\<open>Job {job_id} scheduled on nodes {node_range}\<close>, and
  \<^verbatim>\<open>_fill_template_placeholders\<close> evaluates
  \<^verbatim>\<open>random.randint(0, self.num_nodes - 10)\<close> with an empty range, which raises
  \<^verbatim>\<open>ValueError\<close>.
\<close>

theorem generate_logs_raises_on_small_machine:
  "anomaly_probability small_simulator = 0 \<and> 0 < num_nodes small_simulator \<and>
   generate_logs 1 small_simulator = Inl ValueError"
proof -
  have a: "anomaly_probability small_simulator = 0" "num_nodes small_simulator = 5"
    "\<not> any_active small_simulator" "rng_draws small_simulator = (\<lambda>i. 16)"
    "node_status small_simulator 1 = Some OPERATIONAL"
    by (simp_all add: small_simulator_def BGLLogSimulator_def any_active_def)
  have "\<not> drawn_random small_simulator < anomaly_probability small_simulator"
    by (simp add: a drawn_random_def)
  from generate_logs_step_normal [OF a(3) this]
  have "generate_logs_step small_simulator = normal_log (drawn small_simulator)" .
  also have "\<dots> = Inl ValueError"
    by (rule normal_log_raises) (simp_all add: a drawn_def)
  finally have "generate_logs 1 small_simulator = Inl ValueError"
    by (simp add: generate_logs_def py_range_def bindM_def)
  then show ?thesis
    by (simp add: a)
qed

end
